theory Spec2Isabelle
  imports Complex_Main
begin

section \<open>Board model\<close>

text \<open>
  The source type \<^verbatim>\<open>PieceType\<close> is a union of twelve one-letter strings and \<^verbatim>\<open>null\<close>.
  The twelve letters become the constructors below: \<open>WK\<close> is \<^verbatim>\<open>'K'\<close>, \<open>WQ\<close> is \<^verbatim>\<open>'Q'\<close>,
  \<open>WR\<close> is \<^verbatim>\<open>'R'\<close>, \<open>WB\<close> is \<^verbatim>\<open>'B'\<close>, \<open>WN\<close> is \<^verbatim>\<open>'N'\<close>, \<open>WP\<close> is \<^verbatim>\<open>'P'\<close> (upper case, the
  first mover), and \<open>BK\<close> is \<^verbatim>\<open>'k'\<close>, \<open>BQ\<close> is \<^verbatim>\<open>'q'\<close>, \<open>BR\<close> is \<^verbatim>\<open>'r'\<close>, \<open>BB\<close> is \<^verbatim>\<open>'b'\<close>,
  \<open>BN\<close> is \<^verbatim>\<open>'n'\<close>, \<open>BP\<close> is \<^verbatim>\<open>'p'\<close> (lower case, the second mover). A cell of the board is
  \<open>None\<close> for \<^verbatim>\<open>null\<close> and \<open>Some p\<close> for a piece; a board is an array of rows.
\<close>

datatype piece = WK | WQ | WR | WB | WN | WP | BK | BQ | BR | BB | BN | BP

type_synonym cell = "piece option"
type_synonym Board = "cell list list"
type_synonym square = "int \<times> int"
type_synonym move = "int \<times> int \<times> int \<times> int"

fun toUpperCase :: "piece \<Rightarrow> piece" where
  "toUpperCase BK = WK"
| "toUpperCase BQ = WQ"
| "toUpperCase BR = WR"
| "toUpperCase BB = WB"
| "toUpperCase BN = WN"
| "toUpperCase BP = WP"
| "toUpperCase p = p"

fun toLowerCase :: "piece \<Rightarrow> piece" where
  "toLowerCase WK = BK"
| "toLowerCase WQ = BQ"
| "toLowerCase WR = BR"
| "toLowerCase WB = BB"
| "toLowerCase WN = BN"
| "toLowerCase WP = BP"
| "toLowerCase p = p"

definition initialBoard :: Board where
  "initialBoard =
    [[Some BR, Some BN, Some BB, Some BQ, Some BK, Some BB, Some BN, Some BR],
     [Some BP, Some BP, Some BP, Some BP, Some BP, Some BP, Some BP, Some BP],
     [None, None, None, None, None, None, None, None],
     [None, None, None, None, None, None, None, None],
     [None, None, None, None, None, None, None, None],
     [None, None, None, None, None, None, None, None],
     [Some WP, Some WP, Some WP, Some WP, Some WP, Some WP, Some WP, Some WP],
     [Some WR, Some WN, Some WB, Some WQ, Some WK, Some WB, Some WN, Some WR]]"

text \<open>\<^verbatim>\<open>piece !== null && piece === piece.toUpperCase()\<close>, and the same with lower case.\<close>

definition isWhite :: "cell \<Rightarrow> bool" where
  "isWhite piece = (case piece of None \<Rightarrow> False | Some p \<Rightarrow> p = toUpperCase p)"

definition isBlack :: "cell \<Rightarrow> bool" where
  "isBlack piece = (case piece of None \<Rightarrow> False | Some p \<Rightarrow> p = toLowerCase p)"

subsection \<open>Reading a square\<close>

text \<open>
  Indexing a JavaScript array outside its range yields \<^verbatim>\<open>undefined\<close>, and indexing
  \<^verbatim>\<open>undefined\<close> throws a \<^verbatim>\<open>TypeError\<close>. What a read of the board can produce is therefore
  one of three things, and the read \<^verbatim>\<open>board[r][c]\<close> can fail where \<^verbatim>\<open>board[r]?.[c]\<close> cannot.
  Coordinates are integers. \<open>TypeError\<close> is the exception of the source. \<open>NotAGrid\<close> is not
  an exception: it marks the places where the source goes on but stores outside the index
  range of a row, or stores \<^verbatim>\<open>undefined\<close>, so that the array it builds is no longer a list of
  rows of cells; the model stops there.
\<close>

datatype error = TypeError | NotAGrid

datatype jsval = Undefined | Null | Pc piece

definition row_at :: "Board \<Rightarrow> int \<Rightarrow> cell list option" where
  "row_at board r = (if 0 \<le> r \<and> r < int (length board) then Some (board ! nat r) else None)"

definition elem_at :: "cell list \<Rightarrow> int \<Rightarrow> jsval" where
  "elem_at xs c =
     (if 0 \<le> c \<and> c < int (length xs)
      then (case xs ! nat c of None \<Rightarrow> Null | Some p \<Rightarrow> Pc p)
      else Undefined)"

text \<open>\<^verbatim>\<open>board[r][c]\<close>\<close>

definition read_strict :: "Board \<Rightarrow> int \<Rightarrow> int \<Rightarrow> error + jsval" where
  "read_strict board r c =
     (case row_at board r of None \<Rightarrow> Inl TypeError | Some xs \<Rightarrow> Inr (elem_at xs c))"

text \<open>\<^verbatim>\<open>board[r]?.[c]\<close>\<close>

definition read_opt :: "Board \<Rightarrow> int \<Rightarrow> int \<Rightarrow> jsval" where
  "read_opt board r c =
     (case row_at board r of None \<Rightarrow> Undefined | Some xs \<Rightarrow> elem_at xs c)"

text \<open>Sequencing of computations that may throw.\<close>

definition bindE :: "error + 'a \<Rightarrow> ('a \<Rightarrow> error + 'b) \<Rightarrow> error + 'b" where
  "bindE m f = (case m of Inl e \<Rightarrow> Inl e | Inr x \<Rightarrow> f x)"

section \<open>Move generator\<close>

text \<open>
  \<^verbatim>\<open>addMove\<close> pushes onto the \<^verbatim>\<open>moves\<close> array of the enclosing call and returns a flag; the
  model passes the array in and returns it with the flag. \<open>isWhitePiece\<close> is the variable
  of the enclosing call. When the target read is \<^verbatim>\<open>undefined\<close> (a row shorter than eight),
  \<^verbatim>\<open>isWhite(target)\<close> evaluates \<^verbatim>\<open>undefined.toUpperCase()\<close> and throws.
\<close>

definition addMove ::
  "Board \<Rightarrow> bool \<Rightarrow> square list \<Rightarrow> int \<Rightarrow> int \<Rightarrow> error + (square list \<times> bool)" where
  "addMove board isWhitePiece moves r c =
     (if r < 0 \<or> r > 7 \<or> c < 0 \<or> c > 7 then Inr (moves, False)
      else case read_strict board r c of
             Inl e \<Rightarrow> Inl e
           | Inr Null \<Rightarrow> Inr (moves @ [(r, c)], True)
           | Inr Undefined \<Rightarrow> Inl TypeError
           | Inr (Pc target) \<Rightarrow>
               if isWhitePiece \<noteq> isWhite (Some target)
               then Inr (moves @ [(r, c)], False)
               else Inr (moves, False))"

text \<open>The loop \<^verbatim>\<open>for (let i = 1; i < 8; i++)\<close> of \<^verbatim>\<open>addSlide\<close>, from the counter \<open>i\<close> on.\<close>

function addSlide_from ::
  "Board \<Rightarrow> bool \<Rightarrow> int \<Rightarrow> int \<Rightarrow> int \<Rightarrow> int \<Rightarrow> int \<Rightarrow> square list \<Rightarrow> error + square list" where
  "addSlide_from board isWhitePiece row col dr dc i moves =
     (if i < 8 then
        (case addMove board isWhitePiece moves (row + dr * i) (col + dc * i) of
           Inl e \<Rightarrow> Inl e
         | Inr (moves', ok) \<Rightarrow>
             if \<not> ok then Inr moves'
             else if read_opt board (row + dr * i) (col + dc * i) \<noteq> Undefined
                     \<and> read_opt board (row + dr * i) (col + dc * i) \<noteq> Null
                  then Inr moves'
             else addSlide_from board isWhitePiece row col dr dc (i + 1) moves')
      else Inr moves)"
  by pat_completeness auto
termination
  by (relation "measure (\<lambda>(board, isWhitePiece, row, col, dr, dc, i, moves). nat (8 - i))") auto

definition addSlide ::
  "Board \<Rightarrow> bool \<Rightarrow> int \<Rightarrow> int \<Rightarrow> square list \<Rightarrow> int \<times> int \<Rightarrow> error + square list" where
  "addSlide board isWhitePiece row col moves d =
     addSlide_from board isWhitePiece row col (fst d) (snd d) 1 moves"

text \<open>\<^verbatim>\<open>ds.forEach(([dr, dc]) => addSlide(dr, dc))\<close>: a throw ends the iteration.\<close>

fun forEach_addSlide ::
  "Board \<Rightarrow> bool \<Rightarrow> int \<Rightarrow> int \<Rightarrow> (int \<times> int) list \<Rightarrow> square list \<Rightarrow> error + square list" where
  "forEach_addSlide board isWhitePiece row col [] moves = Inr moves"
| "forEach_addSlide board isWhitePiece row col (d # ds) moves =
     bindE (addSlide board isWhitePiece row col moves d)
       (forEach_addSlide board isWhitePiece row col ds)"

text \<open>\<^verbatim>\<open>ds.forEach(([dr, dc]) => addMove(row + dr, col + dc))\<close>: the flag is dropped.\<close>

fun forEach_addMove ::
  "Board \<Rightarrow> bool \<Rightarrow> int \<Rightarrow> int \<Rightarrow> (int \<times> int) list \<Rightarrow> square list \<Rightarrow> error + square list" where
  "forEach_addMove board isWhitePiece row col [] moves = Inr moves"
| "forEach_addMove board isWhitePiece row col (d # ds) moves =
     bindE (addMove board isWhitePiece moves (row + fst d) (col + snd d))
       (\<lambda>res. forEach_addMove board isWhitePiece row col ds (fst res))"

text \<open>The body of \<^verbatim>\<open>[-1, 1].forEach(dc => ...)\<close> in the pawn case.\<close>

definition pawnCapture :: "Board \<Rightarrow> bool \<Rightarrow> int \<Rightarrow> int \<Rightarrow> int \<Rightarrow> square list \<Rightarrow> int \<Rightarrow> square list" where
  "pawnCapture board isWhitePiece row col dir moves dc =
     (case read_opt board (row + dir) (col + dc) of
        Pc target \<Rightarrow>
          if isWhitePiece \<noteq> isWhite (Some target) then moves @ [(row + dir, col + dc)] else moves
      | _ \<Rightarrow> moves)"

definition pawnMoves :: "Board \<Rightarrow> bool \<Rightarrow> int \<Rightarrow> int \<Rightarrow> square list" where
  "pawnMoves board isWhitePiece row col =
     (let dir = (if isWhitePiece then - 1 else 1);
          startRow = (if isWhitePiece then 6 else 1);
          moves1 =
            (if read_opt board (row + dir) col = Null then
               (if row = startRow \<and> read_opt board (row + 2 * dir) col = Null
                then [(row + dir, col), (row + 2 * dir, col)]
                else [(row + dir, col)])
             else [])
      in foldl (pawnCapture board isWhitePiece row col dir) moves1 [- 1, 1])"

definition knightOffsets :: "(int \<times> int) list" where
  "knightOffsets = [(- 2, - 1), (- 2, 1), (- 1, - 2), (- 1, 2), (1, - 2), (1, 2), (2, - 1), (2, 1)]"

definition bishopDirs :: "(int \<times> int) list" where
  "bishopDirs = [(- 1, - 1), (- 1, 1), (1, - 1), (1, 1)]"

definition rookDirs :: "(int \<times> int) list" where
  "rookDirs = [(- 1, 0), (1, 0), (0, - 1), (0, 1)]"

definition queenDirs :: "(int \<times> int) list" where
  "queenDirs = [(- 1, - 1), (- 1, 1), (1, - 1), (1, 1), (- 1, 0), (1, 0), (0, - 1), (0, 1)]"

definition kingOffsets :: "(int \<times> int) list" where
  "kingOffsets = [(- 1, - 1), (- 1, 0), (- 1, 1), (0, - 1), (0, 1), (1, - 1), (1, 0), (1, 1)]"

text \<open>
  \<^verbatim>\<open>getValidMoves(board, row, col)\<close>. The first read is \<^verbatim>\<open>board[row][col]\<close>, which throws
  when \<^verbatim>\<open>board[row]\<close> is \<^verbatim>\<open>undefined\<close>; \<^verbatim>\<open>!piece\<close> holds for \<^verbatim>\<open>null\<close> and \<^verbatim>\<open>undefined\<close>. The
  \<^verbatim>\<open>switch\<close> is on the lower-cased letter and has no default.
\<close>

definition getValidMoves :: "Board \<Rightarrow> int \<Rightarrow> int \<Rightarrow> error + square list" where
  "getValidMoves board row col =
     (case read_strict board row col of
        Inl e \<Rightarrow> Inl e
      | Inr Undefined \<Rightarrow> Inr []
      | Inr Null \<Rightarrow> Inr []
      | Inr (Pc piece) \<Rightarrow>
          (let isWhitePiece = isWhite (Some piece);
               pieceType = toLowerCase piece
           in case pieceType of
                BP \<Rightarrow> Inr (pawnMoves board isWhitePiece row col)
              | BN \<Rightarrow> forEach_addMove board isWhitePiece row col knightOffsets []
              | BB \<Rightarrow> forEach_addSlide board isWhitePiece row col bishopDirs []
              | BR \<Rightarrow> forEach_addSlide board isWhitePiece row col rookDirs []
              | BQ \<Rightarrow> forEach_addSlide board isWhitePiece row col queenDirs []
              | BK \<Rightarrow> forEach_addMove board isWhitePiece row col kingOffsets []
              | _ \<Rightarrow> Inr []))"


section \<open>Move applicator\<close>

text \<open>\<^verbatim>\<open>board[r][c] = v\<close> on a board held as a value.\<close>

definition write_cell :: "Board \<Rightarrow> int \<Rightarrow> int \<Rightarrow> cell \<Rightarrow> error + Board" where
  "write_cell board r c v =
     (case row_at board r of
        None \<Rightarrow> Inl TypeError
      | Some xs \<Rightarrow>
          if 0 \<le> c \<and> c < int (length xs) then Inr (board[nat r := xs[nat c := v]])
          else Inl NotAGrid)"

text \<open>
  \<^verbatim>\<open>makeMove(board, from, to)\<close> on values: the copy \<^verbatim>\<open>board.map(row => [...row])\<close> is the
  board itself. \<open>makeMove_heap\<close> below is the same function on a store of row arrays, where
  the copy is visible.
\<close>

definition makeMove :: "Board \<Rightarrow> square \<Rightarrow> square \<Rightarrow> error + Board" where
  "makeMove board from to =
     bindE (read_strict board (fst from) (snd from)) (\<lambda>piece.
       case piece of
         Undefined \<Rightarrow>
           (case row_at board (fst to) of None \<Rightarrow> Inl TypeError | Some xs \<Rightarrow> Inl NotAGrid)
       | _ \<Rightarrow>
          (let v = (case piece of Pc p \<Rightarrow> Some p | _ \<Rightarrow> None) in
           bindE (write_cell board (fst to) (snd to) v) (\<lambda>b1.
           bindE (write_cell b1 (fst from) (snd from) None) (\<lambda>b2.
             if (case v of None \<Rightarrow> False | Some p \<Rightarrow> toLowerCase p = BP)
                \<and> (fst to = 0 \<or> fst to = 7)
             then write_cell b2 (fst to) (snd to) (Some (if isWhite v then WQ else BQ))
             else Inr b2))))"

subsection \<open>The same on a store\<close>

text \<open>
  The row arrays live in a store, addressed by their position in it; a board is the array
  of the addresses of its rows. \<^verbatim>\<open>[...row]\<close> allocates a new row array at the end of the
  store, \<^verbatim>\<open>board.map\<close> builds a new outer array, and each assignment updates one row array
  in place. An outer array is a value here: the source never assigns to an element of
  an outer array, only to an element of a row.
\<close>

type_synonym heap = "cell list list"
type_synonym boardref = "nat list"

definition deref :: "heap \<Rightarrow> boardref \<Rightarrow> Board" where
  "deref h refs = map (\<lambda>a. h ! a) refs"

definition valid_ref :: "heap \<Rightarrow> boardref \<Rightarrow> bool" where
  "valid_ref h refs = (\<forall>a \<in> set refs. a < length h)"

definition copy_rows :: "heap \<Rightarrow> boardref \<Rightarrow> heap \<times> boardref" where
  "copy_rows h refs = (h @ map (\<lambda>a. h ! a) refs, [length h ..< length h + length refs])"

definition heap_read :: "heap \<Rightarrow> boardref \<Rightarrow> int \<Rightarrow> int \<Rightarrow> error + jsval" where
  "heap_read h refs r c =
     (if 0 \<le> r \<and> r < int (length refs) then Inr (elem_at (h ! (refs ! nat r)) c)
      else Inl TypeError)"

definition heap_write :: "heap \<Rightarrow> boardref \<Rightarrow> int \<Rightarrow> int \<Rightarrow> cell \<Rightarrow> error + heap" where
  "heap_write h refs r c v =
     (if 0 \<le> r \<and> r < int (length refs) then
        (let a = refs ! nat r in
         if 0 \<le> c \<and> c < int (length (h ! a)) then Inr (h[a := (h ! a)[nat c := v]])
         else Inl NotAGrid)
      else Inl TypeError)"

definition makeMove_heap ::
  "heap \<Rightarrow> boardref \<Rightarrow> square \<Rightarrow> square \<Rightarrow> error + (heap \<times> boardref)" where
  "makeMove_heap h board from to =
     (let (h0, newBoard) = copy_rows h board in
      bindE (heap_read h0 newBoard (fst from) (snd from)) (\<lambda>piece.
        case piece of
          Undefined \<Rightarrow>
            (if 0 \<le> fst to \<and> fst to < int (length newBoard) then Inl NotAGrid
             else Inl TypeError)
        | _ \<Rightarrow>
           (let v = (case piece of Pc p \<Rightarrow> Some p | _ \<Rightarrow> None) in
            bindE (heap_write h0 newBoard (fst to) (snd to) v) (\<lambda>h1.
            bindE (heap_write h1 newBoard (fst from) (snd from) None) (\<lambda>h2.
              if (case v of None \<Rightarrow> False | Some p \<Rightarrow> toLowerCase p = BP)
                 \<and> (fst to = 0 \<or> fst to = 7)
              then bindE (heap_write h2 newBoard (fst to) (snd to)
                            (Some (if isWhite v then WQ else BQ)))
                     (\<lambda>h3. Inr (h3, newBoard))
              else Inr (h2, newBoard))))))"

section \<open>Evaluator\<close>

text \<open>
  Scores are JavaScript numbers. Every value the evaluator computes is an integer below
  \<open>2^53\<close> or such an integer plus one half, which a double holds exactly, so the
  arithmetic of the source is the arithmetic of the reals on these values. The search adds
  the two infinities.
\<close>

datatype number = NegInfinity | Num real | Infinity

instantiation number :: linorder
begin

definition less_eq_number :: "number \<Rightarrow> number \<Rightarrow> bool" where
  "less_eq_number x y =
     (case x of
        NegInfinity \<Rightarrow> True
      | Num a \<Rightarrow> (case y of NegInfinity \<Rightarrow> False | Num b \<Rightarrow> a \<le> b | Infinity \<Rightarrow> True)
      | Infinity \<Rightarrow> y = Infinity)"

definition less_number :: "number \<Rightarrow> number \<Rightarrow> bool" where
  "less_number x y = (x \<le> y \<and> \<not> y \<le> (x::number))"

instance
  by standard (auto simp: less_eq_number_def less_number_def split: number.splits)

end

fun PIECE_VALUES :: "piece \<Rightarrow> real" where
  "PIECE_VALUES BP = 100"
| "PIECE_VALUES BN = 320"
| "PIECE_VALUES BB = 330"
| "PIECE_VALUES BR = 500"
| "PIECE_VALUES BQ = 900"
| "PIECE_VALUES BK = 20000"
| "PIECE_VALUES WP = - 100"
| "PIECE_VALUES WN = - 320"
| "PIECE_VALUES WB = - 330"
| "PIECE_VALUES WR = - 500"
| "PIECE_VALUES WQ = - 900"
| "PIECE_VALUES WK = - 20000"

text \<open>\<^verbatim>\<open>for (let i = lo; i < n; i++) body\<close> over a state, where the body may throw.\<close>

function for_upto :: "int \<Rightarrow> int \<Rightarrow> (int \<Rightarrow> 's \<Rightarrow> error + 's) \<Rightarrow> 's \<Rightarrow> error + 's" where
  "for_upto i n body s =
     (if i < n then bindE (body i s) (\<lambda>s'. for_upto (i + 1) n body s') else Inr s)"
  by pat_completeness auto
termination
  by (relation "measure (\<lambda>(i, n, body, s). nat (n - i))") auto

text \<open>The body of the inner loop of \<^verbatim>\<open>evaluateBoard\<close>; \<^verbatim>\<open>x || 0\<close> is \<open>0\<close> when \<open>x\<close> is \<open>0\<close>.\<close>

definition evaluateSquare :: "Board \<Rightarrow> int \<Rightarrow> int \<Rightarrow> real \<Rightarrow> error + real" where
  "evaluateSquare board r c score =
     bindE (read_strict board r c) (\<lambda>piece.
       case piece of
         Pc p \<Rightarrow>
           (let score1 = score + (if PIECE_VALUES p = 0 then 0 else PIECE_VALUES p);
                centerBonus = (3.5 - \<bar>3.5 - real_of_int c\<bar>) * 5
                              + (3.5 - \<bar>3.5 - real_of_int r\<bar>) * 5
            in Inr (score1 + (if isBlack (Some p) then centerBonus else - centerBonus)))
       | _ \<Rightarrow> Inr score)"

definition evaluateBoard :: "Board \<Rightarrow> error + real" where
  "evaluateBoard board =
     for_upto 0 8 (\<lambda>r score. for_upto 0 8 (\<lambda>c score. evaluateSquare board r c score) score) 0"

section \<open>Search engine\<close>

definition allMovesSquare :: "Board \<Rightarrow> bool \<Rightarrow> int \<Rightarrow> int \<Rightarrow> move list \<Rightarrow> error + move list" where
  "allMovesSquare board forBlack r c moves =
     bindE (read_strict board r c) (\<lambda>piece.
       case piece of
         Pc p \<Rightarrow>
           if (if forBlack then isBlack (Some p) else isWhite (Some p)) then
             bindE (getValidMoves board r c) (\<lambda>pieceMoves.
               Inr (moves @ map (\<lambda>(tr, tc). (r, c, tr, tc)) pieceMoves))
           else Inr moves
       | _ \<Rightarrow> Inr moves)"

definition getAllMoves :: "Board \<Rightarrow> bool \<Rightarrow> error + move list" where
  "getAllMoves board forBlack =
     for_upto 0 8 (\<lambda>r moves. for_upto 0 8 (\<lambda>c moves. allMovesSquare board forBlack r c moves) moves) []"

text \<open>
  The two move loops of \<^verbatim>\<open>minimax\<close>, with the recursive call as the parameter \<open>ev\<close>. The
  state of a loop is \<open>maxEval\<close> (or \<open>minEval\<close>) and the window; \<^verbatim>\<open>break\<close> returns at once.
\<close>

fun maxLoop ::
  "(Board \<Rightarrow> number \<Rightarrow> number \<Rightarrow> error + number) \<Rightarrow> Board \<Rightarrow> move list
     \<Rightarrow> number \<Rightarrow> number \<Rightarrow> number \<Rightarrow> error + number" where
  "maxLoop ev board [] maxEval alpha beta = Inr maxEval"
| "maxLoop ev board ((fr, fc, tr, tc) # moves) maxEval alpha beta =
     bindE (makeMove board (fr, fc) (tr, tc)) (\<lambda>newBoard.
     bindE (ev newBoard alpha beta) (\<lambda>evalScore.
       let maxEval' = max maxEval evalScore; alpha' = max alpha evalScore in
       if beta \<le> alpha' then Inr maxEval'
       else maxLoop ev board moves maxEval' alpha' beta))"

fun minLoop ::
  "(Board \<Rightarrow> number \<Rightarrow> number \<Rightarrow> error + number) \<Rightarrow> Board \<Rightarrow> move list
     \<Rightarrow> number \<Rightarrow> number \<Rightarrow> number \<Rightarrow> error + number" where
  "minLoop ev board [] minEval alpha beta = Inr minEval"
| "minLoop ev board ((fr, fc, tr, tc) # moves) minEval alpha beta =
     bindE (makeMove board (fr, fc) (tr, tc)) (\<lambda>newBoard.
     bindE (ev newBoard alpha beta) (\<lambda>evalScore.
       let minEval' = min minEval evalScore; beta' = min beta evalScore in
       if beta' \<le> alpha then Inr minEval'
       else minLoop ev board moves minEval' alpha beta'))"

text \<open>
  \<^verbatim>\<open>minimax(board, depth, alpha, beta, maximizing)\<close>. The depth is a count of plies: the
  source passes 2 and counts down to 0.
\<close>

fun minimax :: "Board \<Rightarrow> nat \<Rightarrow> number \<Rightarrow> number \<Rightarrow> bool \<Rightarrow> error + number" where
  "minimax board 0 alpha beta maximizing = bindE (evaluateBoard board) (\<lambda>x. Inr (Num x))"
| "minimax board (Suc depth) alpha beta maximizing =
     bindE (getAllMoves board maximizing) (\<lambda>moves.
       if moves = [] then Inr (if maximizing then NegInfinity else Infinity)
       else if maximizing then
         maxLoop (\<lambda>newBoard a b. minimax newBoard depth a b False) board moves NegInfinity alpha beta
       else
         minLoop (\<lambda>newBoard a b. minimax newBoard depth a b True) board moves Infinity alpha beta)"

text \<open>The loop of \<^verbatim>\<open>aiMove\<close> over the moves; its state is \<open>bestMove\<close> and \<open>bestScore\<close>.\<close>

fun bestLoop :: "Board \<Rightarrow> move list \<Rightarrow> move \<Rightarrow> number \<Rightarrow> error + move" where
  "bestLoop currentBoard [] bestMove bestScore = Inr bestMove"
| "bestLoop currentBoard ((fr, fc, tr, tc) # moves) bestMove bestScore =
     bindE (makeMove currentBoard (fr, fc) (tr, tc)) (\<lambda>newBoard.
     bindE (minimax newBoard 2 NegInfinity Infinity False) (\<lambda>score.
       if score > bestScore then bestLoop currentBoard moves (fr, fc, tr, tc) score
       else bestLoop currentBoard moves bestMove bestScore))"

text \<open>
  What the callback of \<^verbatim>\<open>aiMove\<close> does to the game: either it only sets \<^verbatim>\<open>gameOver\<close>, or it
  plays \<open>bestMove\<close>, sets the board, and may set \<^verbatim>\<open>gameOver\<close> after looking at the moves of
  the other side. The move notation and the timer are presentation and are left out.
\<close>

datatype ai_outcome =
    NoMove string
  | Played move Board "string option"

definition aiMove :: "Board \<Rightarrow> error + ai_outcome" where
  "aiMove currentBoard =
     bindE (getAllMoves currentBoard True) (\<lambda>moves.
       if moves = [] then Inr (NoMove ''Checkmate! You win!'')
       else
         bindE (bestLoop currentBoard moves (hd moves) NegInfinity) (\<lambda>bestMove.
           case bestMove of (fr, fc, tr, tc) \<Rightarrow>
             bindE (makeMove currentBoard (fr, fc) (tr, tc)) (\<lambda>newBoard.
             bindE (getAllMoves newBoard False) (\<lambda>whiteMoves.
               Inr (Played bestMove newBoard
                      (if whiteMoves = [] then Some ''Checkmate! AI wins!'' else None))))))"

section \<open>Properties\<close>

subsection \<open>Vocabulary\<close>

text \<open>
  A board in the sense of the specification has eight rows of eight cells. \<open>cell_at\<close>
  reads such a board at a square in range.
\<close>

definition wf_board :: "Board \<Rightarrow> bool" where
  "wf_board board = (length board = 8 \<and> (\<forall>xs \<in> set board. length xs = 8))"

definition on_board :: "int \<Rightarrow> int \<Rightarrow> bool" where
  "on_board r c = (0 \<le> r \<and> r \<le> 7 \<and> 0 \<le> c \<and> c \<le> 7)"

definition cell_at :: "Board \<Rightarrow> int \<Rightarrow> int \<Rightarrow> cell" where
  "cell_at board r c = board ! nat r ! nat c"

definition to_jsval :: "cell \<Rightarrow> jsval" where
  "to_jsval x = (case x of None \<Rightarrow> Null | Some p \<Rightarrow> Pc p)"

definition empty_sq :: "Board \<Rightarrow> int \<Rightarrow> int \<Rightarrow> bool" where
  "empty_sq board r c = (on_board r c \<and> cell_at board r c = None)"

definition enemy_sq :: "Board \<Rightarrow> bool \<Rightarrow> int \<Rightarrow> int \<Rightarrow> bool" where
  "enemy_sq board w r c =
     (on_board r c \<and> (case cell_at board r c of None \<Rightarrow> False | Some t \<Rightarrow> w \<noteq> isWhite (Some t)))"

definition target_ok :: "Board \<Rightarrow> bool \<Rightarrow> int \<Rightarrow> int \<Rightarrow> bool" where
  "target_ok board w r c = (empty_sq board r c \<or> enemy_sq board w r c)"

definition slide_set :: "Board \<Rightarrow> bool \<Rightarrow> int \<Rightarrow> int \<Rightarrow> int \<Rightarrow> int \<Rightarrow> int \<Rightarrow> square set" where
  "slide_set board w row col dr dc i =
     {(row + dr * j, col + dc * j) | j.
        i \<le> j \<and> j < 8
        \<and> (\<forall>k. i \<le> k \<and> k < j \<longrightarrow> empty_sq board (row + dr * k) (col + dc * k))
        \<and> target_ok board w (row + dr * j) (col + dc * j)}"

definition pawn_dir :: "bool \<Rightarrow> int" where
  "pawn_dir w = (if w then - 1 else 1)"

definition pawn_start :: "bool \<Rightarrow> int" where
  "pawn_start w = (if w then 6 else 1)"

definition slideDirs :: "piece \<Rightarrow> (int \<times> int) list" where
  "slideDirs p =
     (case toLowerCase p of BB \<Rightarrow> bishopDirs | BR \<Rightarrow> rookDirs | BQ \<Rightarrow> queenDirs | _ \<Rightarrow> [])"

text \<open>
  \<open>set_sq\<close> is a board with one square replaced. \<open>promotes\<close> is the promotion test of
  \<^verbatim>\<open>makeMove\<close>, and \<open>moved_piece\<close> what arrives on the destination: the piece of the source
  square, or a queen of its colour. \<open>fresh_rows\<close> and \<open>sim\<close> relate a store whose rows from
  address \<open>n\<close> on are the rows of a copied board to that board as a value.
\<close>

definition set_sq :: "Board \<Rightarrow> square \<Rightarrow> cell \<Rightarrow> Board" where
  "set_sq board sq v = board[nat (fst sq) := (board ! nat (fst sq))[nat (snd sq) := v]]"

definition promotes :: "Board \<Rightarrow> square \<Rightarrow> square \<Rightarrow> bool" where
  "promotes board src dst =
     (case cell_at board (fst src) (snd src) of
        None \<Rightarrow> False
      | Some p \<Rightarrow> toLowerCase p = BP \<and> (fst dst = 0 \<or> fst dst = 7))"

definition moved_piece :: "Board \<Rightarrow> square \<Rightarrow> square \<Rightarrow> cell" where
  "moved_piece board src dst =
     (if promotes board src dst
      then Some (if isWhite (cell_at board (fst src) (snd src)) then WQ else BQ)
      else cell_at board (fst src) (snd src))"

definition fresh_rows :: "nat \<Rightarrow> heap \<Rightarrow> boardref \<Rightarrow> bool" where
  "fresh_rows n h refs = (distinct refs \<and> (\<forall>a \<in> set refs. n \<le> a \<and> a < length h))"

definition sim :: "nat \<Rightarrow> heap \<Rightarrow> boardref \<Rightarrow> heap \<Rightarrow> Board \<Rightarrow> bool" where
  "sim n h refs h' b' =
     (deref h' refs = b' \<and> fresh_rows n h' refs \<and> (\<forall>a < n. h' ! a = h ! a))"

subsection \<open>The score in the words of the specification\<close>

text \<open>
  The specification describes a piece by its side and its kind, gives each kind a
  material value, and scores a board by summing, over the occupied squares, the material
  value and the centre bonus of the square, counted positive for the second mover and
  negative for the first mover. \<open>spec_score\<close> is that description; \<open>evaluateBoard\<close> above
  is the source.
\<close>

datatype side = FirstMover | SecondMover

datatype kind = Pawn | Knight | Bishop | Rook | Queen | King

fun sideOf :: "piece \<Rightarrow> side" where
  "sideOf WK = FirstMover" | "sideOf WQ = FirstMover" | "sideOf WR = FirstMover"
| "sideOf WB = FirstMover" | "sideOf WN = FirstMover" | "sideOf WP = FirstMover"
| "sideOf p = SecondMover"

fun kindOf :: "piece \<Rightarrow> kind" where
  "kindOf WK = King" | "kindOf BK = King"
| "kindOf WQ = Queen" | "kindOf BQ = Queen"
| "kindOf WR = Rook" | "kindOf BR = Rook"
| "kindOf WB = Bishop" | "kindOf BB = Bishop"
| "kindOf WN = Knight" | "kindOf BN = Knight"
| "kindOf WP = Pawn" | "kindOf BP = Pawn"

fun material :: "kind \<Rightarrow> real" where
  "material Pawn = 100"
| "material Knight = 320"
| "material Bishop = 330"
| "material Rook = 500"
| "material Queen = 900"
| "material King = 20000"

definition centerBonus :: "int \<Rightarrow> int \<Rightarrow> real" where
  "centerBonus r c = (3.5 - \<bar>3.5 - real_of_int c\<bar>) * 5 + (3.5 - \<bar>3.5 - real_of_int r\<bar>) * 5"

definition square_score :: "Board \<Rightarrow> int \<Rightarrow> int \<Rightarrow> real" where
  "square_score board r c =
     (case cell_at board r c of
        None \<Rightarrow> 0
      | Some p \<Rightarrow>
          (case sideOf p of
             SecondMover \<Rightarrow> material (kindOf p) + centerBonus r c
           | FirstMover \<Rightarrow> - material (kindOf p) - centerBonus r c))"

definition spec_score :: "Board \<Rightarrow> real" where
  "spec_score board = (\<Sum>r = 0..7. \<Sum>c = 0..7. square_score board r c)"

subsection \<open>The moves of a side in scan order\<close>

text \<open>
  \<open>scanMoves\<close> lists the moves of one side: the squares row by row, and for each square
  that holds a piece of the side the destinations of \<open>getValidMoves\<close> in their order.
\<close>

definition movesOf :: "Board \<Rightarrow> int \<Rightarrow> int \<Rightarrow> square list" where
  "movesOf board r c = (case getValidMoves board r c of Inl e \<Rightarrow> [] | Inr ms \<Rightarrow> ms)"

definition squareMoves :: "Board \<Rightarrow> bool \<Rightarrow> int \<Rightarrow> int \<Rightarrow> move list" where
  "squareMoves board forBlack r c =
     (if (if forBlack then isBlack (cell_at board r c) else isWhite (cell_at board r c))
      then map (\<lambda>(tr, tc). (r, c, tr, tc)) (movesOf board r c)
      else [])"

definition scanMoves :: "Board \<Rightarrow> bool \<Rightarrow> move list" where
  "scanMoves board forBlack =
     concat (map (\<lambda>r. concat (map (\<lambda>c. squareMoves board forBlack r c) [0..7])) [0..7])"

definition move_on_board :: "move \<Rightarrow> bool" where
  "move_on_board m = (case m of (fr, fc, tr, tc) \<Rightarrow> on_board fr fc \<and> on_board tr tc)"

subsection \<open>Minimax without pruning\<close>

text \<open>
  \<open>plainMinimax\<close> is \<open>minimax\<close> with the two \<^verbatim>\<open>break\<close> statements removed: the window is
  then never read, so it is dropped. \<open>ab_rel\<close> relates the value \<open>v\<close> that a search with
  window \<open>(alpha, beta)\<close> returns to the value \<open>m\<close> of the search without pruning.
\<close>

fun plainMaxLoop ::
  "(Board \<Rightarrow> error + number) \<Rightarrow> Board \<Rightarrow> move list \<Rightarrow> number \<Rightarrow> error + number" where
  "plainMaxLoop ev board [] maxEval = Inr maxEval"
| "plainMaxLoop ev board ((fr, fc, tr, tc) # moves) maxEval =
     bindE (makeMove board (fr, fc) (tr, tc)) (\<lambda>newBoard.
     bindE (ev newBoard) (\<lambda>evalScore.
       plainMaxLoop ev board moves (max maxEval evalScore)))"

fun plainMinLoop ::
  "(Board \<Rightarrow> error + number) \<Rightarrow> Board \<Rightarrow> move list \<Rightarrow> number \<Rightarrow> error + number" where
  "plainMinLoop ev board [] minEval = Inr minEval"
| "plainMinLoop ev board ((fr, fc, tr, tc) # moves) minEval =
     bindE (makeMove board (fr, fc) (tr, tc)) (\<lambda>newBoard.
     bindE (ev newBoard) (\<lambda>evalScore.
       plainMinLoop ev board moves (min minEval evalScore)))"

fun plainMinimax :: "Board \<Rightarrow> nat \<Rightarrow> bool \<Rightarrow> error + number" where
  "plainMinimax board 0 maximizing = bindE (evaluateBoard board) (\<lambda>x. Inr (Num x))"
| "plainMinimax board (Suc depth) maximizing =
     bindE (getAllMoves board maximizing) (\<lambda>moves.
       if moves = [] then Inr (if maximizing then NegInfinity else Infinity)
       else if maximizing then
         plainMaxLoop (\<lambda>newBoard. plainMinimax newBoard depth False) board moves NegInfinity
       else
         plainMinLoop (\<lambda>newBoard. plainMinimax newBoard depth True) board moves Infinity)"

definition ab_rel :: "number \<Rightarrow> number \<Rightarrow> number \<Rightarrow> number \<Rightarrow> bool" where
  "ab_rel alpha beta v m =
     ((v \<le> alpha \<longrightarrow> m \<le> v) \<and> (beta \<le> v \<longrightarrow> v \<le> m) \<and> (alpha < v \<and> v < beta \<longrightarrow> v = m))"

definition good_child ::
  "(Board \<Rightarrow> number \<Rightarrow> number \<Rightarrow> error + number) \<Rightarrow> (Board \<Rightarrow> error + number) \<Rightarrow> Board \<Rightarrow> bool" where
  "good_child ev pl nb =
     (\<forall>alpha beta. alpha < beta \<longrightarrow>
        (\<exists>v m. ev nb alpha beta = Inr v \<and> pl nb = Inr m \<and> ab_rel alpha beta v m))"

definition good_moves ::
  "(Board \<Rightarrow> number \<Rightarrow> number \<Rightarrow> error + number) \<Rightarrow> (Board \<Rightarrow> error + number)
     \<Rightarrow> Board \<Rightarrow> move list \<Rightarrow> bool" where
  "good_moves ev pl board ms =
     (\<forall>m \<in> set ms. case m of (fr, fc, tr, tc) \<Rightarrow>
        (\<exists>nb. makeMove board (fr, fc) (tr, tc) = Inr nb \<and> good_child ev pl nb))"

subsection \<open>The choice of the automated side\<close>

text \<open>
  \<open>moveScore\<close> is the score \<^verbatim>\<open>aiMove\<close> gives to one move. \<open>first_best ms ss m s\<close> says that
  \<open>m\<close> with score \<open>s\<close> is the first move of greatest score: every earlier move of \<open>ms\<close>
  scores strictly less and every later one at most \<open>s\<close>.
\<close>

definition moveScore :: "Board \<Rightarrow> move \<Rightarrow> error + number" where
  "moveScore board m =
     (case m of (fr, fc, tr, tc) \<Rightarrow>
        bindE (makeMove board (fr, fc) (tr, tc)) (\<lambda>newBoard.
          minimax newBoard 2 NegInfinity Infinity False))"

definition first_best :: "move list \<Rightarrow> number list \<Rightarrow> move \<Rightarrow> number \<Rightarrow> bool" where
  "first_best ms ss m s =
     (\<exists>pre post spre spost.
        ms = pre @ m # post \<and> ss = spre @ s # spost \<and> length pre = length spre
        \<and> (\<forall>x \<in> set spre. x < s) \<and> (\<forall>x \<in> set spost. x \<le> s))"

text \<open>A position for the examples.\<close>

definition sampleBoard :: Board where
  "sampleBoard =
    [[None, None, None, None, Some BK, None, None, None],
     [None, None, None, None, None, None, None, None],
     [None, None, None, Some BP, None, None, None, None],
     [None, None, None, None, None, None, None, None],
     [Some WR, None, None, Some BN, None, None, None, None],
     [None, None, None, None, None, None, None, None],
     [None, None, None, None, Some WP, None, None, None],
     [None, None, None, None, Some WK, None, None, None]]"

text \<open>A position in which neither side has a move.\<close>

definition blockedBoard :: Board where
  "blockedBoard =
    [[None, None, None, None, None, None, None, None],
     [None, None, None, None, None, None, None, None],
     [None, None, None, None, None, None, None, None],
     [None, None, None, None, None, None, None, None],
     [None, None, None, None, None, None, None, None],
     [None, None, None, None, None, None, None, None],
     [Some BP, None, None, None, None, None, None, None],
     [Some WP, None, None, None, None, None, None, None]]"

subsection \<open>Move generator\<close>

lemma row_at_wf:
  "wf_board b \<Longrightarrow> row_at b r = (if 0 \<le> r \<and> r \<le> 7 then Some (b ! nat r) else None)"
  by (auto simp: wf_board_def row_at_def)

lemma length_row_wf: "wf_board b \<Longrightarrow> 0 \<le> r \<Longrightarrow> r \<le> 7 \<Longrightarrow> length (b ! nat r) = 8"
  by (simp add: wf_board_def)

lemma read_opt_wf:
  "wf_board b \<Longrightarrow> read_opt b r c = (if on_board r c then to_jsval (cell_at b r c) else Undefined)"
  by (auto simp: read_opt_def row_at_wf elem_at_def on_board_def length_row_wf to_jsval_def cell_at_def)

lemma read_strict_wf:
  "wf_board b \<Longrightarrow> 0 \<le> r \<Longrightarrow> r \<le> 7 \<Longrightarrow> read_strict b r c = Inr (read_opt b r c)"
  by (simp add: read_strict_def read_opt_def row_at_wf)

lemma read_strict_off:
  "wf_board b \<Longrightarrow> \<not> (0 \<le> r \<and> r \<le> 7) \<Longrightarrow> read_strict b r c = Inl TypeError"
  by (simp add: read_strict_def row_at_wf)

lemma addMove_wf:
  assumes "wf_board b"
  shows "addMove b w mv r c =
           Inr (if target_ok b w r c then mv @ [(r, c)] else mv, empty_sq b r c)"
proof (cases "on_board r c")
  case False
  then show ?thesis
    by (auto simp: addMove_def on_board_def target_ok_def empty_sq_def enemy_sq_def)
next
  case True
  then have rd: "read_strict b r c = Inr (to_jsval (cell_at b r c))"
    using assms by (simp add: read_strict_wf read_opt_wf on_board_def)
  from True have rng: "\<not> (r < 0 \<or> r > 7 \<or> c < 0 \<or> c > 7)"
    by (auto simp: on_board_def)
  show ?thesis
    using True rng
    by (cases "cell_at b r c")
      (simp_all add: addMove_def rd to_jsval_def target_ok_def empty_sq_def enemy_sq_def)
qed

lemma slide_set_done: "8 \<le> i \<Longrightarrow> slide_set b w row col dr dc i = {}"
  by (auto simp: slide_set_def)

lemma slide_set_blocked:
  assumes "\<not> empty_sq b (row + dr * i) (col + dc * i)" "i < 8"
  shows "slide_set b w row col dr dc i =
           (if target_ok b w (row + dr * i) (col + dc * i)
            then {(row + dr * i, col + dc * i)} else {})"
proof -
  have "j = i" if "i \<le> j"
     "\<forall>k. i \<le> k \<and> k < j \<longrightarrow> empty_sq b (row + dr * k) (col + dc * k)" for j
  proof (rule ccontr)
    assume "j \<noteq> i"
    with that(1) have "i < j" by simp
    with that(2) have "empty_sq b (row + dr * i) (col + dc * i)" by simp
    with assms show False by simp
  qed
  then show ?thesis using assms(2)
    by (auto simp: slide_set_def)
qed

lemma slide_set_step:
  assumes "empty_sq b (row + dr * i) (col + dc * i)" "i < 8"
  shows "slide_set b w row col dr dc i =
           insert (row + dr * i, col + dc * i) (slide_set b w row col dr dc (i + 1))"
proof -
  have ok: "target_ok b w (row + dr * i) (col + dc * i)"
    using assms by (simp add: target_ok_def)
  have ext: "(\<forall>k. i \<le> k \<and> k < j \<longrightarrow> empty_sq b (row + dr * k) (col + dc * k))
             \<longleftrightarrow> (\<forall>k. i + 1 \<le> k \<and> k < j \<longrightarrow> empty_sq b (row + dr * k) (col + dc * k))" for j
  proof
    assume r: "\<forall>k. i + 1 \<le> k \<and> k < j \<longrightarrow> empty_sq b (row + dr * k) (col + dc * k)"
    show "\<forall>k. i \<le> k \<and> k < j \<longrightarrow> empty_sq b (row + dr * k) (col + dc * k)"
    proof (intro allI impI)
      fix k assume "i \<le> k \<and> k < j"
      then consider "k = i" | "i + 1 \<le> k \<and> k < j" by linarith
      then show "empty_sq b (row + dr * k) (col + dc * k)"
        using assms(1) r by cases auto
    qed
  qed auto
  show ?thesis
  proof (intro set_eqI iffI)
    fix x assume "x \<in> slide_set b w row col dr dc i"
    then obtain j where j: "x = (row + dr * j, col + dc * j)" "i \<le> j" "j < 8"
       "\<forall>k. i \<le> k \<and> k < j \<longrightarrow> empty_sq b (row + dr * k) (col + dc * k)"
       "target_ok b w (row + dr * j) (col + dc * j)"
      by (auto simp: slide_set_def)
    show "x \<in> insert (row + dr * i, col + dc * i) (slide_set b w row col dr dc (i + 1))"
    proof (cases "j = i")
      case True then show ?thesis using j by simp
    next
      case False
      then have "i + 1 \<le> j" using j(2) by simp
      moreover have "\<forall>k. i + 1 \<le> k \<and> k < j \<longrightarrow> empty_sq b (row + dr * k) (col + dc * k)"
        using j(4) by simp
      ultimately have "x \<in> slide_set b w row col dr dc (i + 1)"
        unfolding slide_set_def using j(1,3,5) by blast
      then show ?thesis by simp
    qed
  next
    fix x assume x: "x \<in> insert (row + dr * i, col + dc * i) (slide_set b w row col dr dc (i + 1))"
    show "x \<in> slide_set b w row col dr dc i"
    proof (cases "x = (row + dr * i, col + dc * i)")
      case True
      then show ?thesis unfolding slide_set_def using ok assms(2) by force
    next
      case False
      with x have "x \<in> slide_set b w row col dr dc (i + 1)" by simp
      then obtain j where j: "x = (row + dr * j, col + dc * j)" "i + 1 \<le> j" "j < 8"
       "\<forall>k. i + 1 \<le> k \<and> k < j \<longrightarrow> empty_sq b (row + dr * k) (col + dc * k)"
       "target_ok b w (row + dr * j) (col + dc * j)"
        by (auto simp: slide_set_def)
      from j(4) have "\<forall>k. i \<le> k \<and> k < j \<longrightarrow> empty_sq b (row + dr * k) (col + dc * k)"
        using ext[of j] by simp
      moreover have "i \<le> j" using j(2) by simp
      ultimately show ?thesis unfolding slide_set_def using j(1,3,5) by blast
    qed
  qed
qed

lemma addSlide_from_wf:
  assumes "wf_board b"
  shows "\<exists>ms. addSlide_from b w row col dr dc i mv = Inr ms
              \<and> set ms = set mv \<union> slide_set b w row col dr dc i"
  using assms
proof (induction b w row col dr dc i mv rule: addSlide_from.induct)
  case (1 board isWhitePiece row col dr dc i moves)
  let ?r = "row + dr * i" and ?c = "col + dc * i"
  show ?case
  proof (cases "i < 8")
    case False
    then show ?thesis by (simp add: slide_set_done)
  next
    case lt: True
    note am = addMove_wf[OF "1.prems", of isWhitePiece moves ?r ?c]
    show ?thesis
    proof (cases "empty_sq board ?r ?c")
      case False
      then show ?thesis
        using lt am by (subst addSlide_from.simps) (auto simp: slide_set_blocked)
    next
      case True
      then have ok: "target_ok board isWhitePiece ?r ?c" by (simp add: target_ok_def)
      from True have rd: "read_opt board ?r ?c = Null"
        using "1.prems" by (simp add: read_opt_wf empty_sq_def to_jsval_def)
      have am': "addMove board isWhitePiece moves ?r ?c = Inr (moves @ [(?r, ?c)], True)"
        using am ok True by simp
      have "\<exists>ms. addSlide_from board isWhitePiece row col dr dc (i + 1) (moves @ [(?r, ?c)]) = Inr ms
         \<and> set ms = set (moves @ [(?r, ?c)]) \<union> slide_set board isWhitePiece row col dr dc (i + 1)"
        by (rule "1.IH"[OF lt am' refl]) (simp_all add: rd "1.prems")
      then obtain ms where ms: "addSlide_from board isWhitePiece row col dr dc (i + 1) (moves @ [(?r, ?c)]) = Inr ms"
         "set ms = set (moves @ [(?r, ?c)]) \<union> slide_set board isWhitePiece row col dr dc (i + 1)"
        by auto
      have "addSlide_from board isWhitePiece row col dr dc i moves = Inr ms"
        using lt am' rd ms(1) by (subst addSlide_from.simps) simp
      then show ?thesis
        using ms(2) slide_set_step[OF True lt, of isWhitePiece] by auto
    qed
  qed
qed

lemma bindE_Inr [simp]: "bindE (Inr x) f = f x"
  by (simp add: bindE_def)

lemma bindE_Inl [simp]: "bindE (Inl e) f = Inl e"
  by (simp add: bindE_def)

lemma read_opt_Null_iff: "wf_board b \<Longrightarrow> read_opt b r c = Null \<longleftrightarrow> empty_sq b r c"
  by (auto simp: read_opt_wf empty_sq_def to_jsval_def split: option.splits)

lemma read_opt_Pc_iff:
  "wf_board b \<Longrightarrow> read_opt b r c = Pc t \<longleftrightarrow> on_board r c \<and> cell_at b r c = Some t"
  by (auto simp: read_opt_wf to_jsval_def split: option.splits)

lemma forEach_addSlide_wf:
  assumes "wf_board b"
  shows "\<exists>ms. forEach_addSlide b w row col ds mv = Inr ms
           \<and> set ms = set mv \<union> (\<Union>d \<in> set ds. slide_set b w row col (fst d) (snd d) 1)"
proof (induction ds arbitrary: mv)
  case Nil
  then show ?case by simp
next
  case (Cons d ds)
  obtain m1 where m1: "addSlide b w row col mv d = Inr m1"
    "set m1 = set mv \<union> slide_set b w row col (fst d) (snd d) 1"
    using addSlide_from_wf[OF assms, of w row col "fst d" "snd d" 1 mv]
    by (auto simp: addSlide_def)
  obtain ms where ms: "forEach_addSlide b w row col ds m1 = Inr ms"
    "set ms = set m1 \<union> (\<Union>d \<in> set ds. slide_set b w row col (fst d) (snd d) 1)"
    using Cons.IH[of m1] by auto
  show ?case
    using m1 ms by auto
qed

lemma forEach_addMove_wf:
  assumes "wf_board b"
  shows "forEach_addMove b w row col ds mv =
           Inr (mv @ filter (\<lambda>(r, c). target_ok b w r c) (map (\<lambda>d. (row + fst d, col + snd d)) ds))"
  by (induction ds arbitrary: mv) (simp_all add: addMove_wf[OF assms])

lemma pawnCapture_wf:
  assumes "wf_board b"
  shows "pawnCapture b w row col dir mv dc =
           (if enemy_sq b w (row + dir) (col + dc) then mv @ [(row + dir, col + dc)] else mv)"
proof (cases "on_board (row + dir) (col + dc)")
  case False
  then show ?thesis
    using assms by (simp add: pawnCapture_def read_opt_wf enemy_sq_def)
next
  case True
  then show ?thesis
    using assms
    by (cases "cell_at b (row + dir) (col + dc)")
      (simp_all add: pawnCapture_def read_opt_wf enemy_sq_def to_jsval_def)
qed

lemma pawnMoves_wf:
  assumes "wf_board b"
  shows "pawnMoves b w row col =
     (if empty_sq b (row + pawn_dir w) col then
        (if row = pawn_start w \<and> empty_sq b (row + 2 * pawn_dir w) col
         then [(row + pawn_dir w, col), (row + 2 * pawn_dir w, col)]
         else [(row + pawn_dir w, col)])
      else [])
     @ (if enemy_sq b w (row + pawn_dir w) (col + - 1) then [(row + pawn_dir w, col + - 1)] else [])
     @ (if enemy_sq b w (row + pawn_dir w) (col + 1) then [(row + pawn_dir w, col + 1)] else [])"
  unfolding pawnMoves_def Let_def pawn_dir_def pawn_start_def
  by (simp add: pawnCapture_wf[OF assms] read_opt_Null_iff[OF assms])

lemma isBlack_not_isWhite: "isBlack (Some p) \<longleftrightarrow> \<not> isWhite (Some p)"
  by (cases p) (simp_all add: isBlack_def isWhite_def)

lemma slide_set_target_ok:
  "x \<in> slide_set b w row col dr dc i \<Longrightarrow> target_ok b w (fst x) (snd x)"
  by (auto simp: slide_set_def)

lemma pawn_targets_ok:
  assumes "wf_board b" "x \<in> set (pawnMoves b w row col)"
  shows "target_ok b w (fst x) (snd x)"
proof -
  have e2: "empty_sq b (row + 2 * pawn_dir w) col \<Longrightarrow> target_ok b w (row + 2 * pawn_dir w) col"
    and e1: "empty_sq b (row + pawn_dir w) col \<Longrightarrow> target_ok b w (row + pawn_dir w) col"
    and c: "\<And>dc. enemy_sq b w (row + pawn_dir w) (col + dc) \<Longrightarrow> target_ok b w (row + pawn_dir w) (col + dc)"
    by (simp_all add: target_ok_def)
  show ?thesis
    using assms(2) e1 e2 c[of "- 1"] c[of 1]
    unfolding pawnMoves_wf[OF assms(1)]
    by (auto split: if_splits)
qed

lemma toLowerCase_cases:
  "toLowerCase p = BP \<or> toLowerCase p = BN \<or> toLowerCase p = BB
   \<or> toLowerCase p = BR \<or> toLowerCase p = BQ \<or> toLowerCase p = BK"
  by (cases p) simp_all

lemma getValidMoves_piece:
  assumes "wf_board b" "on_board row col" "cell_at b row col = Some p"
  shows "getValidMoves b row col =
     (case toLowerCase p of
        BP \<Rightarrow> Inr (pawnMoves b (isWhite (Some p)) row col)
      | BN \<Rightarrow> forEach_addMove b (isWhite (Some p)) row col knightOffsets []
      | BB \<Rightarrow> forEach_addSlide b (isWhite (Some p)) row col bishopDirs []
      | BR \<Rightarrow> forEach_addSlide b (isWhite (Some p)) row col rookDirs []
      | BQ \<Rightarrow> forEach_addSlide b (isWhite (Some p)) row col queenDirs []
      | BK \<Rightarrow> forEach_addMove b (isWhite (Some p)) row col kingOffsets []
      | _ \<Rightarrow> Inr [])"
  using assms
  by (simp add: getValidMoves_def read_strict_wf read_opt_wf on_board_def to_jsval_def Let_def)

lemma getValidMoves_empty:
  assumes "wf_board b" "on_board row col" "cell_at b row col = None"
  shows "getValidMoves b row col = Inr []"
  using assms
  by (simp add: getValidMoves_def read_strict_wf read_opt_wf on_board_def to_jsval_def)

lemma getValidMoves_targets:
  assumes "wf_board b" "on_board row col"
  shows "\<exists>ms. getValidMoves b row col = Inr ms
           \<and> (\<forall>x \<in> set ms. target_ok b (isWhite (cell_at b row col)) (fst x) (snd x))"
proof (cases "cell_at b row col")
  case None
  then show ?thesis using assms by (simp add: getValidMoves_empty)
next
  case (Some p)
  let ?w = "isWhite (Some p)"
  note gv = getValidMoves_piece[OF assms Some]
  have slide: "\<exists>ms. forEach_addSlide b ?w row col ds [] = Inr ms
           \<and> (\<forall>x \<in> set ms. target_ok b ?w (fst x) (snd x))" for ds
    using forEach_addSlide_wf[OF assms(1), of ?w row col ds "[]"]
    by (auto dest: slide_set_target_ok)
  have jump: "\<exists>ms. forEach_addMove b ?w row col ds [] = Inr ms
           \<and> (\<forall>x \<in> set ms. target_ok b ?w (fst x) (snd x))" for ds
    by (auto simp: forEach_addMove_wf[OF assms(1)])
  have pawn: "\<exists>ms. Inr (pawnMoves b ?w row col) = (Inr ms :: error + square list)
           \<and> (\<forall>x \<in> set ms. target_ok b ?w (fst x) (snd x))"
    using pawn_targets_ok[OF assms(1)] by auto
  from toLowerCase_cases[of p] show ?thesis
    unfolding Some gv using slide jump pawn by (elim disjE) simp_all
qed

lemma wf_initialBoard: "wf_board initialBoard"
  by (simp add: wf_board_def initialBoard_def)

lemma target_ok_sides:
  assumes "target_ok b (isWhite (cell_at b row col)) r c"
  shows "on_board r c
         \<and> \<not> (isWhite (cell_at b row col) \<and> isWhite (cell_at b r c))
         \<and> \<not> (isBlack (cell_at b row col) \<and> isBlack (cell_at b r c))"
proof (cases "cell_at b r c")
  case None
  then show ?thesis
    using assms by (auto simp: target_ok_def empty_sq_def enemy_sq_def isWhite_def isBlack_def)
next
  case (Some t)
  then show ?thesis
    using assms
    by (cases "cell_at b row col")
       (auto simp: target_ok_def empty_sq_def enemy_sq_def isBlack_not_isWhite,
        auto simp: isBlack_def)
qed

text \<open>
  Claim C1. On an 8x8 board and from a square with row and column in 0..7,
  \<open>getValidMoves\<close> returns (it does not throw), and every destination it returns has its
  row and column in 0..7 and does not hold a piece of the side of the piece on the
  starting square: the two squares are never both white and never both black.
\<close>

theorem movesFrom_on_board_not_friendly:
  assumes "wf_board board" "0 \<le> row" "row \<le> 7" "0 \<le> col" "col \<le> 7"
  shows "\<exists>moves. getValidMoves board row col = Inr moves
           \<and> (\<forall>(r, c) \<in> set moves.
                 0 \<le> r \<and> r \<le> 7 \<and> 0 \<le> c \<and> c \<le> 7
                 \<and> \<not> (isWhite (cell_at board row col) \<and> isWhite (cell_at board r c))
                 \<and> \<not> (isBlack (cell_at board row col) \<and> isBlack (cell_at board r c)))"
proof -
  have ob: "on_board row col" using assms by (simp add: on_board_def)
  obtain ms where ms: "getValidMoves board row col = Inr ms"
     "\<forall>x \<in> set ms. target_ok board (isWhite (cell_at board row col)) (fst x) (snd x)"
    using getValidMoves_targets[OF assms(1) ob] by auto
  have "0 \<le> r \<and> r \<le> 7 \<and> 0 \<le> c \<and> c \<le> 7
        \<and> \<not> (isWhite (cell_at board row col) \<and> isWhite (cell_at board r c))
        \<and> \<not> (isBlack (cell_at board row col) \<and> isBlack (cell_at board r c))"
    if "(r, c) \<in> set ms" for r c
    using target_ok_sides[of board row col r c] ms(2) that
    by (fastforce simp: on_board_def)
  with ms(1) show ?thesis by auto
qed

theorem movesFrom_on_board_not_friendly_witness:
  "wf_board initialBoard
   \<and> (\<exists>moves. getValidMoves initialBoard 7 1 = Inr moves
           \<and> (\<forall>(r, c) \<in> set moves.
                 0 \<le> r \<and> r \<le> 7 \<and> 0 \<le> c \<and> c \<le> 7
                 \<and> \<not> (isWhite (cell_at initialBoard 7 1) \<and> isWhite (cell_at initialBoard r c))
                 \<and> \<not> (isBlack (cell_at initialBoard 7 1) \<and> isBlack (cell_at initialBoard r c))))"
  using movesFrom_on_board_not_friendly[of initialBoard 7 1] wf_initialBoard by simp

text \<open>
  Claim C9 says that any coordinate outside 0..7 gives the empty list without a fault.
  The first statement of \<open>getValidMoves\<close> reads \<^verbatim>\<open>board[row][col]\<close> with no guard on the row:
  from row 8 of the initial board the call throws.
\<close>

theorem movesFrom_row_out_of_range_counterexample:
  "getValidMoves initialBoard 8 0 = Inl TypeError"
  by (simp add: getValidMoves_def read_strict_def row_at_def initialBoard_def)

text \<open>
  Claim C9, as the source has it. On an 8x8 board, a row in 0..7 with a column outside
  0..7 gives the empty list of moves without a fault (the read yields \<^verbatim>\<open>undefined\<close>), and a
  row outside 0..7 makes the call throw a \<open>TypeError\<close>.
\<close>

theorem movesFrom_out_of_range:
  assumes "wf_board board"
  shows "(0 \<le> row \<and> row \<le> 7 \<and> (col < 0 \<or> 7 < col) \<longrightarrow> getValidMoves board row col = Inr [])
       \<and> (row < 0 \<or> 7 < row \<longrightarrow> getValidMoves board row col = Inl TypeError)"
  using assms
  by (auto simp: getValidMoves_def read_strict_wf read_strict_off read_opt_wf on_board_def)

theorem movesFrom_out_of_range_witness:
  "wf_board initialBoard
   \<and> getValidMoves initialBoard 3 9 = Inr []
   \<and> getValidMoves initialBoard (- 1) 2 = Inl TypeError"
  using movesFrom_out_of_range[of initialBoard 3 9] movesFrom_out_of_range[of initialBoard "- 1" 2]
    wf_initialBoard by simp

text \<open>
  Claim C3. From a square in range that holds a pawn, on an 8x8 board, the destinations
  returned are exactly: the square one step forward (row - 1 for white, row + 1 for
  black) when it is on the board and empty; the square two steps forward when the pawn
  stands on its starting row (6 for white, 1 for black) and both squares ahead are
  empty; and each of the two squares diagonally forward that holds an opposing piece. A
  diagonal square that is empty, off the board or holds a friendly piece is not returned.
\<close>

theorem pawn_moves_exact:
  assumes "wf_board board" "0 \<le> row" "row \<le> 7" "0 \<le> col" "col \<le> 7"
    and "cell_at board row col = Some p" "toLowerCase p = BP"
  shows "\<exists>moves. getValidMoves board row col = Inr moves
     \<and> (let w = isWhite (Some p); dir = pawn_dir w in
        set moves =
         (if empty_sq board (row + dir) col then {(row + dir, col)} else {})
         \<union> (if row = pawn_start w \<and> empty_sq board (row + dir) col
                \<and> empty_sq board (row + 2 * dir) col
             then {(row + 2 * dir, col)} else {})
         \<union> {(row + dir, col + dc) | dc. (dc = - 1 \<or> dc = 1) \<and> enemy_sq board w (row + dir) (col + dc)}
        \<and> (\<forall>dc. (dc = - 1 \<or> dc = 1) \<and> \<not> enemy_sq board w (row + dir) (col + dc)
            \<longrightarrow> (row + dir, col + dc) \<notin> set moves))"
proof -
  define w where "w = isWhite (Some p)"
  define dir where "dir = pawn_dir w"
  have ob: "on_board row col" using assms by (simp add: on_board_def)
  have gv: "getValidMoves board row col = Inr (pawnMoves board w row col)"
    using getValidMoves_piece[OF assms(1) ob assms(6)] assms(7) w_def by simp
  have dir: "dir = 1 \<or> dir = - 1" using dir_def by (simp add: pawn_dir_def)
  have "set (pawnMoves board w row col) =
         (if empty_sq board (row + dir) col then {(row + dir, col)} else {})
         \<union> (if row = pawn_start w \<and> empty_sq board (row + dir) col
                \<and> empty_sq board (row + 2 * dir) col
             then {(row + 2 * dir, col)} else {})
         \<union> {(row + dir, col + dc) | dc. (dc = - 1 \<or> dc = 1) \<and> enemy_sq board w (row + dir) (col + dc)}"
    (is "?L = ?R")
    unfolding pawnMoves_wf[OF assms(1)] dir_def[symmetric]
    by auto
  moreover have "\<forall>dc. (dc = - 1 \<or> dc = 1) \<and> \<not> enemy_sq board w (row + dir) (col + dc)
            \<longrightarrow> (row + dir, col + dc) \<notin> ?R"
    using dir by (auto split: if_splits)
  ultimately show ?thesis using gv unfolding Let_def w_def[symmetric] dir_def[symmetric] by simp
qed

theorem pawn_moves_exact_witness:
  "wf_board initialBoard \<and> cell_at initialBoard 6 4 = Some WP \<and> toLowerCase WP = BP
   \<and> (\<exists>moves. getValidMoves initialBoard 6 4 = Inr moves \<and> set moves = {(5, 4), (4, 4)})"
proof -
  have c: "cell_at initialBoard 6 4 = Some WP"
    by (simp add: cell_at_def initialBoard_def)
  have e: "empty_sq initialBoard 5 4" "empty_sq initialBoard 4 4"
    by (simp_all add: empty_sq_def on_board_def cell_at_def initialBoard_def)
  have n: "\<not> enemy_sq initialBoard True 5 3" "\<not> enemy_sq initialBoard True 5 5"
    by (simp_all add: enemy_sq_def on_board_def cell_at_def initialBoard_def)
  have "{(5 :: int, 4 + dc) | dc. (dc = - 1 \<or> dc = 1) \<and> enemy_sq initialBoard True 5 (4 + dc)} = {}"
    using n by auto
  then show ?thesis
    using pawn_moves_exact[OF wf_initialBoard _ _ _ _ c] e c wf_initialBoard
    by (auto simp: Let_def isWhite_def pawn_dir_def pawn_start_def)
qed

lemma dirs_unit:
  assumes "d \<in> set (slideDirs p)"
  shows "(fst d = - 1 \<or> fst d = 0 \<or> fst d = 1) \<and> (snd d = - 1 \<or> snd d = 0 \<or> snd d = 1)
         \<and> (fst d \<noteq> 0 \<or> snd d \<noteq> 0)"
  using assms
  by (auto simp: slideDirs_def bishopDirs_def rookDirs_def queenDirs_def split: piece.splits)

lemma ray_inj:
  fixes dr dc dr' dc' j j' :: int
  assumes "dr = - 1 \<or> dr = 0 \<or> dr = 1" "dc = - 1 \<or> dc = 0 \<or> dc = 1"
    and "dr' = - 1 \<or> dr' = 0 \<or> dr' = 1" "dc' = - 1 \<or> dc' = 0 \<or> dc' = 1"
    and "dr \<noteq> 0 \<or> dc \<noteq> 0" "1 \<le> j" "1 \<le> j'"
    and "dr * j = dr' * j'" "dc * j = dc' * j'"
  shows "dr = dr' \<and> dc = dc' \<and> j = j'"
  using assms by auto

lemma getValidMoves_slider:
  assumes "wf_board b" "on_board row col" "cell_at b row col = Some p" "d \<in> set (slideDirs p)"
  shows "\<exists>ms. getValidMoves b row col = Inr ms
           \<and> set ms = (\<Union>d \<in> set (slideDirs p). slide_set b (isWhite (Some p)) row col (fst d) (snd d) 1)"
proof -
  from assms(4) have "toLowerCase p = BB \<or> toLowerCase p = BR \<or> toLowerCase p = BQ"
    by (auto simp: slideDirs_def split: piece.splits)
  then have "getValidMoves b row col = forEach_addSlide b (isWhite (Some p)) row col (slideDirs p) []"
    unfolding getValidMoves_piece[OF assms(1-3)] slideDirs_def by (elim disjE) simp_all
  then show ?thesis
    using forEach_addSlide_wf[OF assms(1), of "isWhite (Some p)" row col "slideDirs p" "[]"]
    by simp
qed

lemma slider_member:
  assumes "wf_board b" "on_board row col" "cell_at b row col = Some p"
    and "(dr, dc) \<in> set (slideDirs p)" "getValidMoves b row col = Inr ms" "1 \<le> j"
  shows "(row + dr * j, col + dc * j) \<in> set ms \<longleftrightarrow>
           j < 8
           \<and> (\<forall>k. 1 \<le> k \<and> k < j \<longrightarrow> empty_sq b (row + dr * k) (col + dc * k))
           \<and> target_ok b (isWhite (Some p)) (row + dr * j) (col + dc * j)"
    (is "?L \<longleftrightarrow> ?R")
proof
  let ?w = "isWhite (Some p)"
  have set_ms: "set ms = (\<Union>d \<in> set (slideDirs p). slide_set b ?w row col (fst d) (snd d) 1)"
    using getValidMoves_slider[OF assms(1-4)] assms(5) by auto
  {
    assume ?R
    then have "(row + dr * j, col + dc * j) \<in> slide_set b ?w row col dr dc 1"
      unfolding slide_set_def using assms(6) by blast
    then show ?L
      unfolding set_ms using assms(4) by force
  }
  {
    assume ?L
    then obtain d where d: "d \<in> set (slideDirs p)"
       "(row + dr * j, col + dc * j) \<in> slide_set b ?w row col (fst d) (snd d) 1"
      unfolding set_ms by auto
    then obtain j' where j': "row + dr * j = row + fst d * j'" "col + dc * j = col + snd d * j'"
       "1 \<le> j'" "j' < 8"
       "\<forall>k. 1 \<le> k \<and> k < j' \<longrightarrow> empty_sq b (row + fst d * k) (col + snd d * k)"
       "target_ok b ?w (row + fst d * j') (col + snd d * j')"
      unfolding slide_set_def by auto
    have "dr = fst d \<and> dc = snd d \<and> j = j'"
      using dirs_unit[OF assms(4)] dirs_unit[OF d(1)] j'(1,2,3) assms(6)
      by (intro ray_inj) simp_all
    then show ?R using j' by simp
  }
qed

text \<open>
  Claim C2. Take a bishop, rook or queen on a square in range of an 8x8 board, one of the
  directions \<open>(dr, dc)\<close> of that piece, and the first occupied square along it: the square
  \<open>k\<close> steps away, all squares at 1..k-1 steps being empty. Then no square more than \<open>k\<close>
  steps away along the direction is a destination, and the square \<open>k\<close> steps away is a
  destination exactly when its piece is of the opposing side.
\<close>

theorem slide_stops_at_first_piece:
  assumes "wf_board board" "0 \<le> row" "row \<le> 7" "0 \<le> col" "col \<le> 7"
    and "cell_at board row col = Some p"
    and "(dr, dc) \<in> set (slideDirs p)"
    and "1 \<le> k" "on_board (row + dr * k) (col + dc * k)"
    and "cell_at board (row + dr * k) (col + dc * k) \<noteq> None"
    and "\<forall>j. 1 \<le> j \<and> j < k \<longrightarrow> empty_sq board (row + dr * j) (col + dc * j)"
  shows "\<exists>moves. getValidMoves board row col = Inr moves
     \<and> (\<forall>j. k < j \<longrightarrow> (row + dr * j, col + dc * j) \<notin> set moves)
     \<and> ((row + dr * k, col + dc * k) \<in> set moves
          \<longleftrightarrow> enemy_sq board (isWhite (Some p)) (row + dr * k) (col + dc * k))"
proof -
  have ob: "on_board row col" using assms by (simp add: on_board_def)
  obtain ms where ms: "getValidMoves board row col = Inr ms"
    using getValidMoves_slider[OF assms(1) ob assms(6,7)] by auto
  note mem = slider_member[OF assms(1) ob assms(6,7) ms]
  have occ: "\<not> empty_sq board (row + dr * k) (col + dc * k)"
    using assms(10) by (simp add: empty_sq_def)
  have k8: "k < 8"
    using dirs_unit[OF assms(7)] assms(9) ob assms(8) by (auto simp: on_board_def)
  have beyond: "(row + dr * j, col + dc * j) \<notin> set ms" if "k < j" for j
  proof -
    have "1 \<le> j" using that assms(8) by simp
    from mem[OF this] occ that assms(8) show ?thesis by auto
  qed
  have "(row + dr * k, col + dc * k) \<in> set ms
          \<longleftrightarrow> enemy_sq board (isWhite (Some p)) (row + dr * k) (col + dc * k)"
    using mem[OF assms(8)] k8 assms(11) occ by (auto simp: target_ok_def)
  with ms beyond show ?thesis by auto
qed

theorem slide_stops_at_first_piece_witness:
  "wf_board sampleBoard \<and> cell_at sampleBoard 4 0 = Some WR \<and> (0, 1) \<in> set (slideDirs WR)
   \<and> empty_sq sampleBoard 4 1 \<and> empty_sq sampleBoard 4 2 \<and> cell_at sampleBoard 4 3 = Some BN
   \<and> (\<exists>moves. getValidMoves sampleBoard 4 0 = Inr moves
        \<and> (4, 3) \<in> set moves \<and> (4, 4) \<notin> set moves \<and> (4, 5) \<notin> set moves)"
proof -
  have wf: "wf_board sampleBoard"
    by (simp add: wf_board_def sampleBoard_def)
  have c: "cell_at sampleBoard 4 0 = Some WR" and c3: "cell_at sampleBoard 4 3 = Some BN"
    by (simp_all add: cell_at_def sampleBoard_def)
  have d: "(0, 1) \<in> set (slideDirs WR)"
    by (simp add: slideDirs_def rookDirs_def)
  have ob: "on_board (4 + 0 * 3) (0 + 1 * 3)"
    by (simp add: on_board_def)
  have occ: "cell_at sampleBoard (4 + 0 * 3) (0 + 1 * 3) \<noteq> None"
    by (simp add: c3)
  have e: "empty_sq sampleBoard 4 1" "empty_sq sampleBoard 4 2"
    by (simp_all add: empty_sq_def on_board_def cell_at_def sampleBoard_def)
  have emp: "\<forall>j. 1 \<le> j \<and> j < 3 \<longrightarrow> empty_sq sampleBoard (4 + 0 * j) (0 + 1 * j)"
  proof (intro allI impI)
    fix j :: int assume "1 \<le> j \<and> j < 3"
    then have "j = 1 \<or> j = 2" by auto
    then show "empty_sq sampleBoard (4 + 0 * j) (0 + 1 * j)"
      using e by auto
  qed
  have en: "enemy_sq sampleBoard (isWhite (Some WR)) (4 + 0 * 3) (0 + 1 * 3)"
    by (simp add: enemy_sq_def on_board_def c3 isWhite_def)
  from slide_stops_at_first_piece[OF wf _ _ _ _ c d _ ob occ emp]
  obtain moves where m: "getValidMoves sampleBoard 4 0 = Inr moves"
    "\<forall>j. 3 < j \<longrightarrow> (4 + 0 * j, 0 + 1 * j) \<notin> set moves"
    "(4 + 0 * 3, 0 + 1 * 3) \<in> set moves"
    using en by auto
  from m(2) have "(4 + 0 * 4, 0 + 1 * 4) \<notin> set moves" "(4 + 0 * 5, 0 + 1 * 5) \<notin> set moves"
    by (simp_all del: mult_zero_left)
  with m(1,3) wf c d e c3 show ?thesis by simp
qed

subsection \<open>Move applicator\<close>

lemma wf_set_sq:
  assumes "wf_board b"
  shows "wf_board (set_sq b sq v)"
proof -
  have "length xs = 8" if "xs \<in> set (b[i := (b ! i)[j := v]])" for xs i j
  proof (cases "i < length b")
    case True
    from that have "xs = (b ! i)[j := v] \<or> xs \<in> set b"
      using set_update_subset_insert[of b i "(b ! i)[j := v]"] by auto
    then show ?thesis
      using assms True by (auto simp: wf_board_def)
  next
    case False
    then show ?thesis using that assms by (simp add: wf_board_def list_update_beyond)
  qed
  then show ?thesis
    using assms by (auto simp: wf_board_def set_sq_def)
qed

lemma write_cell_wf:
  assumes "wf_board b" "on_board r c"
  shows "write_cell b r c v = Inr (set_sq b (r, c) v)"
  using assms
  by (simp add: write_cell_def row_at_wf on_board_def length_row_wf set_sq_def)

lemma cell_at_set_sq:
  assumes "wf_board b" "on_board r c" "on_board r' c'"
  shows "cell_at (set_sq b (r, c) v) r' c' = (if r' = r \<and> c' = c then v else cell_at b r' c')"
proof -
  have l: "length b = 8" "length (b ! nat r) = 8" "nat r < 8" "nat c < 8" "nat r' < 8" "nat c' < 8"
    using assms by (auto simp: wf_board_def on_board_def)
  have eq: "nat r' = nat r \<longleftrightarrow> r' = r" "nat c' = nat c \<longleftrightarrow> c' = c"
    using assms by (auto simp: on_board_def)
  show ?thesis
    using l eq by (auto simp: cell_at_def set_sq_def nth_list_update)
qed

lemma makeMove_wf:
  assumes "wf_board b" "on_board (fst src) (snd src)" "on_board (fst dst) (snd dst)"
  shows "makeMove b src dst =
     Inr (let piece = cell_at b (fst src) (snd src);
              b2 = set_sq (set_sq b dst piece) src None
          in if (case piece of None \<Rightarrow> False | Some p \<Rightarrow> toLowerCase p = BP)
                \<and> (fst dst = 0 \<or> fst dst = 7)
             then set_sq b2 dst (Some (if isWhite piece then WQ else BQ))
             else b2)"
proof -
  have rd: "read_strict b (fst src) (snd src) = Inr (to_jsval (cell_at b (fst src) (snd src)))"
    using assms by (simp add: read_strict_wf read_opt_wf on_board_def)
  have w1: "write_cell b (fst dst) (snd dst) v = Inr (set_sq b dst v)" for v
    using write_cell_wf[OF assms(1,3)] by simp
  have w2: "write_cell (set_sq b dst v) (fst src) (snd src) v' = Inr (set_sq (set_sq b dst v) src v')" for v v'
    using write_cell_wf[OF wf_set_sq[OF assms(1)] assms(2)] by simp
  have w3: "write_cell (set_sq (set_sq b dst v) src v') (fst dst) (snd dst) v''
              = Inr (set_sq (set_sq (set_sq b dst v) src v') dst v'')" for v v' v''
    using write_cell_wf[OF wf_set_sq[OF wf_set_sq[OF assms(1)]] assms(3)] by simp
  show ?thesis
    by (cases "cell_at b (fst src) (snd src)")
       (auto simp: makeMove_def rd to_jsval_def w1 w2 w3 Let_def)
qed

lemma makeMove_wf_board:
  assumes "wf_board b" "on_board (fst src) (snd src)" "on_board (fst dst) (snd dst)"
  shows "\<exists>nb. makeMove b src dst = Inr nb \<and> wf_board nb"
  unfolding makeMove_wf[OF assms]
  by (simp add: Let_def wf_set_sq assms(1))

lemma makeMove_cells:
  assumes "wf_board b" "on_board (fst src) (snd src)" "on_board (fst dst) (snd dst)"
    and "makeMove b src dst = Inr nb" "on_board r c"
  shows "cell_at nb r c =
     (if (r, c) = dst \<and> promotes b src dst then moved_piece b src dst
      else if (r, c) = src then None
      else if (r, c) = dst then moved_piece b src dst
      else cell_at b r c)"
proof -
  note wf1 = wf_set_sq[OF assms(1)]
  note wf2 = wf_set_sq[OF wf1]
  have c1: "cell_at (set_sq b' dst v) r c = (if (r, c) = dst then v else cell_at b' r c)"
    if "wf_board b'" for b' v
    using cell_at_set_sq[OF that assms(3,5), of v] by (cases dst) auto
  have c2: "cell_at (set_sq b' src v) r c = (if (r, c) = src then v else cell_at b' r c)"
    if "wf_board b'" for b' v
    using cell_at_set_sq[OF that assms(2,5), of v] by (cases src) auto
  let ?piece = "cell_at b (fst src) (snd src)"
  let ?b2 = "set_sq (set_sq b dst ?piece) src None"
  have b2: "cell_at ?b2 r c =
     (if (r, c) = src then None else if (r, c) = dst then ?piece else cell_at b r c)"
    by (simp add: c2[OF wf1] c1[OF assms(1)])
  have pr: "((case ?piece of None \<Rightarrow> False | Some p \<Rightarrow> toLowerCase p = BP)
              \<and> (fst dst = 0 \<or> fst dst = 7)) = promotes b src dst"
    by (simp add: promotes_def split: option.splits)
  show ?thesis
  proof (cases "promotes b src dst")
    case True
    then have "nb = set_sq ?b2 dst (Some (if isWhite ?piece then WQ else BQ))"
      using assms(4) unfolding makeMove_wf[OF assms(1-3)] Let_def pr by simp
    then show ?thesis
      using True b2 by (simp add: c1[OF wf2] moved_piece_def)
  next
    case False
    then have "nb = ?b2"
      using assms(4) unfolding makeMove_wf[OF assms(1-3)] Let_def pr by simp
    then show ?thesis
      using False b2 by (simp add: moved_piece_def)
  qed
qed

lemma bindE_rel:
  assumes "rel_sum (=) R m m'" "\<And>x y. R x y \<Longrightarrow> rel_sum (=) S (f x) (g y)"
  shows "rel_sum (=) S (bindE m f) (bindE m' g)"
  using assms by (cases m; cases m') (auto simp: bindE_def)

lemma length_deref [simp]: "length (deref h refs) = length refs"
  by (simp add: deref_def)

lemma row_at_deref:
  "row_at (deref h refs) r =
     (if 0 \<le> r \<and> r < int (length refs) then Some (h ! (refs ! nat r)) else None)"
  by (auto simp: row_at_def deref_def)

lemma heap_read_deref: "heap_read h refs r c = read_strict (deref h refs) r c"
  by (simp add: heap_read_def read_strict_def row_at_deref)

lemma heap_write_sim:
  assumes "fresh_rows n h refs"
  shows "rel_sum (=) (sim n h refs) (heap_write h refs r c v) (write_cell (deref h refs) r c v)"
proof (cases "0 \<le> r \<and> r < int (length refs)")
  case False
  then show ?thesis
    by (auto simp: heap_write_def write_cell_def row_at_deref)
next
  case True
  let ?a = "refs ! nat r"
  have a: "?a \<in> set refs" "nat r < length refs" using True by auto
  then have abound: "n \<le> ?a" "?a < length h"
    using assms by (auto simp: fresh_rows_def)
  show ?thesis
  proof (cases "0 \<le> c \<and> c < int (length (h ! ?a))")
    case False
    then show ?thesis
      using True by (auto simp: heap_write_def write_cell_def row_at_deref Let_def)
  next
    case inr: True
    let ?h' = "h[?a := (h ! ?a)[nat c := v]]"
    have hw: "heap_write h refs r c v = Inr ?h'"
      using True inr by (simp add: heap_write_def Let_def)
    have wc: "write_cell (deref h refs) r c v
                = Inr ((deref h refs)[nat r := (h ! ?a)[nat c := v]])"
      using True inr by (simp add: write_cell_def row_at_deref)
    have "deref ?h' refs = (deref h refs)[nat r := (h ! ?a)[nat c := v]]"
    proof (rule nth_equalityI)
      show "length (deref ?h' refs) = length ((deref h refs)[nat r := (h ! ?a)[nat c := v]])"
        by simp
    next
      fix i assume "i < length (deref ?h' refs)"
      then have i: "i < length refs" by simp
      have "refs ! i = ?a \<longleftrightarrow> i = nat r"
        using assms i a(2) by (auto simp: fresh_rows_def nth_eq_iff_index_eq)
      then show "deref ?h' refs ! i = (deref h refs)[nat r := (h ! ?a)[nat c := v]] ! i"
        using i abound by (auto simp: deref_def nth_list_update)
    qed
    moreover have "fresh_rows n ?h' refs"
      using assms by (simp add: fresh_rows_def)
    moreover have "\<forall>a' < n. ?h' ! a' = h ! a'"
      using abound by simp
    ultimately show ?thesis
      by (simp add: hw wc sim_def)
  qed
qed

lemma sim_trans:
  "sim n h refs h1 b1 \<Longrightarrow> sim n h1 refs h2 b2 \<Longrightarrow> sim n h refs h2 b2"
  by (simp add: sim_def)

lemma copy_rows_fresh:
  assumes "valid_ref h board" "copy_rows h board = (h0, nb)"
  shows "fresh_rows (length h) h0 nb" "deref h0 nb = deref h board"
    "\<forall>a < length h. h0 ! a = h ! a" "length nb = length board"
proof -
  have h0: "h0 = h @ map (\<lambda>a. h ! a) board" and nb: "nb = [length h ..< length h + length board]"
    using assms(2) by (auto simp: copy_rows_def)
  show "fresh_rows (length h) h0 nb"
    by (auto simp: fresh_rows_def h0 nb)
  show "deref h0 nb = deref h board"
  proof (rule nth_equalityI)
    show "length (deref h0 nb) = length (deref h board)" by (simp add: nb)
  next
    fix i assume "i < length (deref h0 nb)"
    then have i: "i < length board" by (simp add: nb)
    then have "board ! i < length h" using assms(1) by (simp add: valid_ref_def)
    then show "deref h0 nb ! i = deref h board ! i"
      using i by (simp add: deref_def h0 nb nth_append)
  qed
  show "\<forall>a < length h. h0 ! a = h ! a" by (simp add: h0 nth_append)
  show "length nb = length board" by (simp add: nb)
qed

lemma makeMove_heap_refines:
  assumes "valid_ref h board"
  shows "rel_sum (=)
           (\<lambda>(h', nb) b'. deref h' nb = b' \<and> (\<forall>a < length h. h' ! a = h ! a))
           (makeMove_heap h board src dst) (makeMove (deref h board) src dst)"
proof -
  obtain h0 nb where cp: "copy_rows h board = (h0, nb)" by (cases "copy_rows h board")
  note f = copy_rows_fresh[OF assms cp]
  let ?n = "length h"
  let ?S = "\<lambda>(h', nb) b'. deref h' nb = b' \<and> (\<forall>a < length h. h' ! a = h ! a)"
  have fin: "sim ?n h0 nb hx bx \<Longrightarrow> rel_sum (=) ?S (Inr (hx, nb)) (Inr bx)" for hx bx
    using f(3) by (simp add: sim_def)
  have w: "sim ?n h0 nb hx bx \<Longrightarrow>
        rel_sum (=) (sim ?n h0 nb) (heap_write hx nb r c v) (write_cell bx r c v)" for hx bx r c v
    using heap_write_sim[of ?n hx nb r c v]
    by (auto simp: sim_def elim!: rel_sum.cases intro!: rel_sum.intros)
  have s0: "sim ?n h0 nb h0 (deref h0 nb)"
    using f(1) by (simp add: sim_def)
  have body: "rel_sum (=) ?S
       (bindE (heap_write h0 nb (fst dst) (snd dst) v) (\<lambda>h1.
        bindE (heap_write h1 nb (fst src) (snd src) None) (\<lambda>h2.
          if P then bindE (heap_write h2 nb (fst dst) (snd dst) q) (\<lambda>h3. Inr (h3, nb))
          else Inr (h2, nb))))
       (bindE (write_cell (deref h0 nb) (fst dst) (snd dst) v) (\<lambda>b1.
        bindE (write_cell b1 (fst src) (snd src) None) (\<lambda>b2.
          if P then write_cell b2 (fst dst) (snd dst) q else Inr b2)))" for v P q
  proof (rule bindE_rel[OF w[OF s0]], rule bindE_rel[OF w], assumption)
    fix h1 b1 h2 b2
    assume "sim ?n h0 nb h1 b1" and s2: "sim ?n h0 nb h2 b2"
    show "rel_sum (=) ?S
       (if P then bindE (heap_write h2 nb (fst dst) (snd dst) q) (\<lambda>h3. Inr (h3, nb))
        else Inr (h2, nb))
       (if P then write_cell b2 (fst dst) (snd dst) q else Inr b2)"
    proof (cases P)
      case True
      have "rel_sum (=) ?S (bindE (heap_write h2 nb (fst dst) (snd dst) q) (\<lambda>h3. Inr (h3, nb)))
              (bindE (write_cell b2 (fst dst) (snd dst) q) Inr)"
        by (rule bindE_rel[OF w[OF s2]]) (rule fin)
      moreover have "bindE m Inr = m" for m :: "error + Board"
        by (cases m) (simp_all add: bindE_def)
      ultimately show ?thesis using True by simp
    next
      case False
      then show ?thesis using fin[OF s2] by simp
    qed
  qed
  have rt: "(0 \<le> fst dst \<and> fst dst < int (length nb)) \<longleftrightarrow> row_at (deref h0 nb) (fst dst) \<noteq> None"
    by (simp add: row_at_deref)
  show ?thesis
  proof (cases "read_strict (deref h0 nb) (fst src) (snd src)")
    case (Inl e)
    then show ?thesis
      by (simp add: makeMove_heap_def makeMove_def cp heap_read_deref f(2)[symmetric] bindE_def)
  next
    case (Inr piece)
    show ?thesis
    proof (cases piece)
      case Undefined
      then show ?thesis
        using Inr rt
        by (auto simp: makeMove_heap_def makeMove_def cp heap_read_deref f(2)[symmetric] bindE_def
              split: option.splits)
    next
      case Null
      then show ?thesis
        using Inr body[of None False]
        by (simp add: makeMove_heap_def makeMove_def cp heap_read_deref f(2)[symmetric] Let_def)
    next
      case (Pc p)
      then show ?thesis
        using Inr body[of "Some p" "toLowerCase p = BP \<and> (fst dst = 0 \<or> fst dst = 7)"
                  "Some (if isWhite (Some p) then WQ else BQ)"]
        by (simp add: makeMove_heap_def makeMove_def cp heap_read_deref f(2)[symmetric] Let_def)
    qed
  qed
qed

text \<open>
  Claim C4. On an 8x8 board, for squares \<open>src\<close> and \<open>dst\<close> in range with a pawn on \<open>src\<close>:
  when \<open>dst\<close> is on row 0 and the pawn is white, or on row 7 and the pawn is black,
  \<open>makeMove\<close> returns a board whose square \<open>dst\<close> holds the queen of the pawn's colour.
\<close>

theorem promotion_to_queen:
  assumes "wf_board board" "on_board (fst src) (snd src)" "on_board (fst dst) (snd dst)"
    and "cell_at board (fst src) (snd src) = Some p" "toLowerCase p = BP"
    and "(isWhite (Some p) \<and> fst dst = 0) \<or> (isBlack (Some p) \<and> fst dst = 7)"
  shows "\<exists>newBoard. makeMove board src dst = Inr newBoard
           \<and> cell_at newBoard (fst dst) (snd dst) = Some (if isWhite (Some p) then WQ else BQ)"
proof -
  obtain nb where nb: "makeMove board src dst = Inr nb"
    using makeMove_wf_board[OF assms(1-3)] by auto
  have pr: "promotes board src dst"
    using assms(4-6) by (auto simp: promotes_def)
  have "cell_at nb (fst dst) (snd dst) = moved_piece board src dst"
    using makeMove_cells[OF assms(1-3) nb assms(3)] pr by simp
  then show ?thesis
    using nb pr assms(4) by (simp add: moved_piece_def)
qed

theorem promotion_to_queen_witness:
  "wf_board sampleBoard \<and> on_board 2 3 \<and> on_board 7 3
   \<and> cell_at sampleBoard 2 3 = Some BP \<and> toLowerCase BP = BP \<and> isBlack (Some BP)
   \<and> (\<exists>newBoard. makeMove sampleBoard (2, 3) (7, 3) = Inr newBoard
         \<and> cell_at newBoard 7 3 = Some BQ)"
proof -
  have wf: "wf_board sampleBoard"
    by (simp add: wf_board_def sampleBoard_def)
  have c: "cell_at sampleBoard (fst (2, 3)) (snd (2, 3)) = Some BP"
    by (simp add: cell_at_def sampleBoard_def)
  have s: "isBlack (Some BP)" "\<not> isWhite (Some BP)"
    by (simp_all add: isBlack_def isWhite_def)
  from promotion_to_queen[OF wf _ _ c, of "(7, 3)"] wf c s
  show ?thesis by (simp add: on_board_def)
qed

text \<open>
  Claim C5 says, for every pair of squares in range, that the source becomes empty and
  the destination receives the moved piece. With the same square as source and
  destination the second assignment of \<^verbatim>\<open>makeMove\<close> clears what the first one stored: the
  king of the initial board on (7, 4) is gone and the square is empty.
\<close>

theorem apply_same_square_counterexample:
  "bindE (makeMove initialBoard (7, 4) (7, 4)) (\<lambda>newBoard. Inr (cell_at newBoard 7 4)) = Inr None
   \<and> cell_at initialBoard 7 4 = Some WK"
  by (simp add: makeMove_def read_strict_def row_at_def elem_at_def write_cell_def
        cell_at_def initialBoard_def)

text \<open>
  Claim C5, as the source has it, on the store. For a board of eight rows of eight cells
  and squares \<open>src\<close> and \<open>dst\<close> in range, \<open>makeMove_heap\<close> returns a new store and a new
  board such that: every row array that existed before the call is unchanged, so the
  input board reads as before; the new board agrees with the input on every square
  other than \<open>src\<close> and \<open>dst\<close>; and, when \<open>src\<close> and \<open>dst\<close> differ, \<open>src\<close> is empty and \<open>dst\<close>
  holds the moved piece, or the queen it was promoted to.
\<close>

theorem apply_frame:
  assumes "valid_ref h board" "wf_board (deref h board)"
    and "on_board (fst src) (snd src)" "on_board (fst dst) (snd dst)"
  shows "\<exists>h' newBoard. makeMove_heap h board src dst = Inr (h', newBoard)
     \<and> (\<forall>a < length h. h' ! a = h ! a)
     \<and> deref h' board = deref h board
     \<and> (\<forall>r c. on_board r c \<and> (r, c) \<noteq> src \<and> (r, c) \<noteq> dst
            \<longrightarrow> cell_at (deref h' newBoard) r c = cell_at (deref h board) r c)
     \<and> (src \<noteq> dst \<longrightarrow>
           cell_at (deref h' newBoard) (fst src) (snd src) = None
           \<and> cell_at (deref h' newBoard) (fst dst) (snd dst) = moved_piece (deref h board) src dst)"
proof -
  let ?b = "deref h board"
  obtain nb where nb: "makeMove ?b src dst = Inr nb"
    using makeMove_wf_board[OF assms(2-4)] by auto
  from makeMove_heap_refines[OF assms(1), of src dst]
  obtain h' r where hr: "makeMove_heap h board src dst = Inr (h', r)" "deref h' r = nb"
     "\<forall>a < length h. h' ! a = h ! a"
    unfolding nb by (cases "makeMove_heap h board src dst") auto
  have same: "deref h' board = deref h board"
    using hr(3) assms(1) by (simp add: deref_def valid_ref_def)
  note cells = makeMove_cells[OF assms(2-4) nb]
  have frame: "\<forall>r c. on_board r c \<and> (r, c) \<noteq> src \<and> (r, c) \<noteq> dst
            \<longrightarrow> cell_at nb r c = cell_at ?b r c"
    using cells by simp
  have ends: "src \<noteq> dst \<longrightarrow> cell_at nb (fst src) (snd src) = None
           \<and> cell_at nb (fst dst) (snd dst) = moved_piece ?b src dst"
    using cells[OF assms(3)] cells[OF assms(4)] by auto
  show ?thesis
    using hr same frame ends by auto
qed

theorem apply_frame_witness:
  "valid_ref initialBoard [0, 1, 2, 3, 4, 5, 6, 7]
   \<and> wf_board (deref initialBoard [0, 1, 2, 3, 4, 5, 6, 7])
   \<and> on_board 6 4 \<and> on_board 4 4
   \<and> (\<exists>h' newBoard.
         makeMove_heap initialBoard [0, 1, 2, 3, 4, 5, 6, 7] (6, 4) (4, 4) = Inr (h', newBoard)
         \<and> deref h' [0, 1, 2, 3, 4, 5, 6, 7] = initialBoard
         \<and> cell_at (deref h' newBoard) 7 4 = Some WK
         \<and> cell_at (deref h' newBoard) 6 4 = None
         \<and> cell_at (deref h' newBoard) 4 4 = Some WP)"
proof -
  let ?refs = "[0, 1, 2, 3, 4, 5, 6, 7] :: nat list"
  have d: "deref initialBoard ?refs = initialBoard"
    by (simp add: deref_def initialBoard_def)
  have v: "valid_ref initialBoard ?refs"
    by (simp add: valid_ref_def initialBoard_def)
  have wf: "wf_board (deref initialBoard ?refs)"
    unfolding d by (simp add: wf_board_def initialBoard_def)
  have ob: "on_board (fst (6, 4)) (snd (6, 4))" "on_board (fst (4, 4)) (snd (4, 4))" "on_board 7 4"
    by (simp_all add: on_board_def)
  have mp: "moved_piece initialBoard (6, 4) (4, 4) = Some WP"
    by (simp add: moved_piece_def promotes_def cell_at_def initialBoard_def)
  have k: "cell_at initialBoard 7 4 = Some WK"
    by (simp add: cell_at_def initialBoard_def)
  from apply_frame[OF v wf ob(1,2)]
  obtain h' nb where a: "makeMove_heap initialBoard ?refs (6, 4) (4, 4) = Inr (h', nb)"
    "deref h' ?refs = initialBoard"
    "\<forall>r c. on_board r c \<and> (r, c) \<noteq> (6, 4) \<and> (r, c) \<noteq> (4, 4)
            \<longrightarrow> cell_at (deref h' nb) r c = cell_at initialBoard r c"
    "cell_at (deref h' nb) 6 4 = None" "cell_at (deref h' nb) 4 4 = Some WP"
    unfolding d mp by auto
  from a(3) ob(3) k have "cell_at (deref h' nb) 7 4 = Some WK" by simp
  with a v wf ob show ?thesis by auto
qed

subsection \<open>Evaluator\<close>

declare for_upto.simps [simp del]

lemma for_upto_sum:
  fixes f :: "int \<Rightarrow> real"
  assumes "\<And>j s. lo \<le> j \<Longrightarrow> j < n \<Longrightarrow> body j s = Inr (s + f j)" "lo \<le> i"
  shows "for_upto i n body s = Inr (s + (\<Sum>j = i..<n. f j))"
  using assms
proof (induction i n body s rule: for_upto.induct)
  case (1 i n body s)
  show ?case
  proof (cases "i < n")
    case False
    then show ?thesis by (subst for_upto.simps) simp
  next
    case True
    have split: "{i..<n} = insert i {i + 1..<n}" using True by auto
    have "for_upto i n body s = for_upto (i + 1) n body (s + f i)"
      using True "1.prems"(1)[OF "1.prems"(2) True] by (subst for_upto.simps) simp
    also have "\<dots> = Inr (s + f i + (\<Sum>j = i + 1..<n. f j))"
      using "1.prems" by (intro "1.IH"[OF True]) auto
    finally show ?thesis by (simp add: split add.assoc)
  qed
qed

lemma evaluateSquare_wf:
  assumes "wf_board b" "0 \<le> r" "r < 8" "0 \<le> c" "c < 8"
  shows "evaluateSquare b r c s = Inr (s + square_score b r c)"
proof (cases "cell_at b r c")
  case None
  then show ?thesis
    using assms
    by (simp add: evaluateSquare_def read_strict_wf read_opt_wf on_board_def to_jsval_def
          square_score_def)
next
  case (Some p)
  have rd: "read_strict b r c = Inr (Pc p)"
    using assms Some by (simp add: read_strict_wf read_opt_wf on_board_def to_jsval_def)
  show ?thesis
    unfolding evaluateSquare_def rd square_score_def Some centerBonus_def
    by (cases p) (simp_all add: isBlack_def Let_def)
qed

lemma evaluateBoard_wf:
  assumes "wf_board b"
  shows "evaluateBoard b = Inr (spec_score b)"
proof -
  have inner: "for_upto 0 8 (\<lambda>c score. evaluateSquare b r c score) s
                 = Inr (s + (\<Sum>c = 0..<8. square_score b r c))"
    if "0 \<le> r" "r < 8" for r s
    using that by (intro for_upto_sum[where lo = 0]) (simp_all add: evaluateSquare_wf[OF assms])
  have "evaluateBoard b = Inr (0 + (\<Sum>r = 0..<8. \<Sum>c = 0..<8. square_score b r c))"
    unfolding evaluateBoard_def
    by (rule for_upto_sum[where lo = 0]) (simp_all add: inner)
  moreover have "{0..<8::int} = {0..7}" by auto
  ultimately show ?thesis by (simp add: spec_score_def)
qed

text \<open>
  Claim C6. On a board of eight rows of eight cells, \<open>evaluateBoard\<close> returns the sum over
  the occupied squares of the material value of the piece (pawn 100, knight 320, bishop
  330, rook 500, queen 900, king 20000) plus the centre bonus
  \<open>(3.5 - |3.5 - col|) * 5 + (3.5 - |3.5 - row|) * 5\<close> of the square, both counted
  positive for a piece of the second mover and negative for a piece of the first mover.
\<close>

theorem score_is_material_plus_center:
  assumes "wf_board board"
  shows "evaluateBoard board = Inr (spec_score board)"
  using assms by (rule evaluateBoard_wf)

theorem score_is_material_plus_center_witness:
  "wf_board sampleBoard
   \<and> evaluateBoard sampleBoard = Inr (spec_score sampleBoard)
   \<and> spec_score sampleBoard = - 160"
proof -
  have wf: "wf_board sampleBoard"
    by (simp add: wf_board_def sampleBoard_def)
  have v: "spec_score sampleBoard = - 160"
    by code_simp
  from score_is_material_plus_center[OF wf] wf v show ?thesis by simp
qed

subsection \<open>Search engine\<close>

lemma for_upto_append:
  assumes "\<And>j s. lo \<le> j \<Longrightarrow> j < n \<Longrightarrow> body j s = Inr (s @ f j)" "lo \<le> i"
  shows "for_upto i n body s = Inr (s @ concat (map f [i..n - 1]))"
  using assms
proof (induction i n body s rule: for_upto.induct)
  case (1 i n body s)
  show ?case
  proof (cases "i < n")
    case False
    then show ?thesis by (subst for_upto.simps) simp
  next
    case True
    have split: "[i..n - 1] = i # [i + 1..n - 1]" using True by (simp add: upto_rec1)
    have "for_upto i n body s = for_upto (i + 1) n body (s @ f i)"
      using True "1.prems"(1)[OF "1.prems"(2) True] by (subst for_upto.simps) simp
    also have "\<dots> = Inr ((s @ f i) @ concat (map f [i + 1..n - 1]))"
      using "1.prems" by (intro "1.IH"[OF True]) auto
    finally show ?thesis by (simp add: split)
  qed
qed

lemma allMovesSquare_wf:
  assumes "wf_board b" "0 \<le> r" "r < 8" "0 \<le> c" "c < 8"
  shows "allMovesSquare b fb r c s = Inr (s @ squareMoves b fb r c)"
proof -
  have ob: "on_board r c" using assms by (simp add: on_board_def)
  obtain ms where ms: "getValidMoves b r c = Inr ms"
    using getValidMoves_targets[OF assms(1) ob] by auto
  have rd: "read_strict b r c = Inr (to_jsval (cell_at b r c))"
    using assms ob by (simp add: read_strict_wf read_opt_wf)
  show ?thesis
    unfolding allMovesSquare_def rd
    by (cases "cell_at b r c")
       (simp_all add: to_jsval_def squareMoves_def movesOf_def ms isBlack_def isWhite_def)
qed

lemma getAllMoves_wf:
  assumes "wf_board b"
  shows "getAllMoves b fb = Inr (scanMoves b fb)"
proof -
  have inner: "for_upto 0 8 (\<lambda>c moves. allMovesSquare b fb r c moves) s
                 = Inr (s @ concat (map (\<lambda>c. squareMoves b fb r c) [0..7]))"
    if "0 \<le> r" "r < 8" for r s
    using for_upto_append[where lo = 0 and i = 0 and n = 8
            and body = "\<lambda>c moves. allMovesSquare b fb r c moves"
            and f = "\<lambda>c. squareMoves b fb r c" and s = s]
      allMovesSquare_wf[OF assms that]
    by simp
  have "getAllMoves b fb =
          Inr ([] @ concat (map (\<lambda>r. concat (map (\<lambda>c. squareMoves b fb r c) [0..7])) [0..8 - 1]))"
    unfolding getAllMoves_def
    by (rule for_upto_append[where lo = 0]) (simp_all add: inner)
  then show ?thesis by (simp add: scanMoves_def)
qed

lemma scanMoves_on_board:
  assumes "wf_board b" "m \<in> set (scanMoves b fb)"
  shows "move_on_board m"
proof -
  from assms(2) obtain r c where rc: "r \<in> set [0..7]" "c \<in> set [0..7]" "m \<in> set (squareMoves b fb r c)"
    by (auto simp: scanMoves_def)
  then have ob: "on_board r c" by (simp add: on_board_def)
  obtain ms where ms: "getValidMoves b r c = Inr ms"
     "\<forall>x \<in> set ms. target_ok b (isWhite (cell_at b r c)) (fst x) (snd x)"
    using getValidMoves_targets[OF assms(1) ob] by auto
  from rc(3) obtain tr tc where t: "m = (r, c, tr, tc)" "(tr, tc) \<in> set ms"
    by (auto simp: squareMoves_def movesOf_def ms(1) split: if_splits)
  with ms(2) have "on_board tr tc"
    by (auto simp: target_ok_def empty_sq_def enemy_sq_def)
  with ob t show ?thesis by (simp add: move_on_board_def)
qed

lemma NegInfinity_least [simp]: "NegInfinity \<le> x"
  by (simp add: less_eq_number_def)

lemma Infinity_greatest [simp]: "x \<le> Infinity"
  by (simp add: less_eq_number_def split: number.splits)

lemma NegInfinity_less_Infinity [simp]: "NegInfinity < Infinity"
  by (simp add: less_number_def less_eq_number_def)

lemma good_moves_Cons:
  "good_moves ev pl b ((fr, fc, tr, tc) # ms) \<longleftrightarrow>
     (\<exists>nb. makeMove b (fr, fc) (tr, tc) = Inr nb \<and> good_child ev pl nb) \<and> good_moves ev pl b ms"
  by (simp add: good_moves_def)

lemma good_child_plain:
  assumes "good_child ev pl nb"
  shows "\<exists>m. pl nb = Inr m"
proof -
  have "NegInfinity < Infinity" by simp
  with assms show ?thesis unfolding good_child_def by blast
qed

lemma plainMaxLoop_ge:
  assumes "good_moves ev pl b ms"
  shows "\<exists>m. plainMaxLoop pl b ms M = Inr m \<and> M \<le> m"
  using assms
proof (induction ms arbitrary: M)
  case Nil
  then show ?case by simp
next
  case (Cons mv ms)
  obtain fr fc tr tc where mv: "mv = (fr, fc, tr, tc)" by (cases mv)
  from Cons.prems obtain nb where nb: "makeMove b (fr, fc) (tr, tc) = Inr nb"
     "good_child ev pl nb" and rest: "good_moves ev pl b ms"
    unfolding mv good_moves_Cons by auto
  obtain mc where mc: "pl nb = Inr mc" using good_child_plain[OF nb(2)] by auto
  obtain m where m: "plainMaxLoop pl b ms (max M mc) = Inr m" "max M mc \<le> m"
    using Cons.IH[OF rest] by blast
  then show ?case by (simp add: mv nb(1) mc)
qed

lemma plainMinLoop_le:
  assumes "good_moves ev pl b ms"
  shows "\<exists>m. plainMinLoop pl b ms M = Inr m \<and> m \<le> M"
  using assms
proof (induction ms arbitrary: M)
  case Nil
  then show ?case by simp
next
  case (Cons mv ms)
  obtain fr fc tr tc where mv: "mv = (fr, fc, tr, tc)" by (cases mv)
  from Cons.prems obtain nb where nb: "makeMove b (fr, fc) (tr, tc) = Inr nb"
     "good_child ev pl nb" and rest: "good_moves ev pl b ms"
    unfolding mv good_moves_Cons by auto
  obtain mc where mc: "pl nb = Inr mc" using good_child_plain[OF nb(2)] by auto
  obtain m where m: "plainMinLoop pl b ms (min M mc) = Inr m" "m \<le> min M mc"
    using Cons.IH[OF rest] by blast
  then show ?case by (simp add: mv nb(1) mc)
qed

lemma maxLoop_rel:
  assumes "good_moves ev pl b ms" "max alpha M < beta" "Mp \<le> M" "alpha < M \<longrightarrow> M = Mp"
  shows "\<exists>v m. maxLoop ev b ms M (max alpha M) beta = Inr v
            \<and> plainMaxLoop pl b ms Mp = Inr m \<and> ab_rel alpha beta v m"
  using assms
proof (induction ms arbitrary: M Mp)
  case Nil
  then show ?case by (auto simp: ab_rel_def)
next
  case (Cons mv ms)
  obtain fr fc tr tc where mv: "mv = (fr, fc, tr, tc)" by (cases mv)
  from Cons.prems(1) obtain nb where nb: "makeMove b (fr, fc) (tr, tc) = Inr nb"
     "good_child ev pl nb" and rest: "good_moves ev pl b ms"
    unfolding mv good_moves_Cons by auto
  let ?a = "max alpha M"
  from nb(2) Cons.prems(2) obtain e mc where e: "ev nb ?a beta = Inr e" "pl nb = Inr mc"
     "ab_rel ?a beta e mc"
    unfolding good_child_def by blast
  have step: "maxLoop ev b (mv # ms) M ?a beta =
       (if beta \<le> max ?a e then Inr (max M e) else maxLoop ev b ms (max M e) (max ?a e) beta)"
    by (simp add: mv nb(1) e(1) Let_def)
  have pstep: "plainMaxLoop pl b (mv # ms) Mp = plainMaxLoop pl b ms (max Mp mc)"
    by (simp add: mv nb(1) e(2))
  have a': "max ?a e = max alpha (max M e)" by (simp add: max.assoc)
  show ?case
  proof (cases "beta \<le> max ?a e")
    case True
    with Cons.prems(2) have be: "beta \<le> e" by (auto simp: max_def split: if_splits)
    with e(3) have emc: "e \<le> mc" by (simp add: ab_rel_def)
    from be Cons.prems(2) have "M < e" by (auto simp: max_def split: if_splits)
    then have v: "max M e = e" by simp
    obtain m where m: "plainMaxLoop pl b ms (max Mp mc) = Inr m" "max Mp mc \<le> m"
      using plainMaxLoop_ge[OF rest] by blast
    from m(2) emc have "e \<le> m" by (simp add: max_def split: if_splits)
    moreover from be Cons.prems(2) have "alpha < e" by (auto simp: max_def split: if_splits)
    ultimately have "ab_rel alpha beta e m"
      using be by (auto simp: ab_rel_def)
    then show ?thesis
      using True step pstep m(1) v by simp
  next
    case False
    then have lt: "max alpha (max M e) < beta" unfolding a' by (simp only: not_le)
    then have eb: "e < beta" by (auto simp: max_def split: if_splits)
    have mce: "mc \<le> e"
    proof (cases "e \<le> ?a")
      case True
      with e(3) show ?thesis unfolding ab_rel_def by blast
    next
      case False
      then have "?a < e" by (simp only: not_le)
      with e(3) eb have "e = mc" unfolding ab_rel_def by blast
      then show ?thesis by simp
    qed
    have i1: "max Mp mc \<le> max M e"
      using Cons.prems(3) mce by (auto simp: max_def)
    have i2: "alpha < max M e \<longrightarrow> max M e = max Mp mc"
    proof
      assume am: "alpha < max M e"
      show "max M e = max Mp mc"
      proof (cases "e \<le> M")
        case True
        then have "max M e = M" by simp
        with am Cons.prems(4) have "M = Mp" by simp
        with True mce show ?thesis by (auto simp: max_def)
      next
        case False
        then have Me: "M < e" by simp
        with am have "alpha < e" by (simp add: max_def split: if_splits)
        with Me have "?a < e" by simp
        with e(3) eb have "e = mc" unfolding ab_rel_def by blast
        with Me Cons.prems(3) show ?thesis by (auto simp: max_def)
      qed
    qed
    from Cons.IH[OF rest lt i1 i2]
    show ?thesis
      using False step pstep a' by simp
  qed
qed

lemma minLoop_rel:
  assumes "good_moves ev pl b ms" "alpha < min beta M" "M \<le> Mp" "M < beta \<longrightarrow> M = Mp"
  shows "\<exists>v m. minLoop ev b ms M alpha (min beta M) = Inr v
            \<and> plainMinLoop pl b ms Mp = Inr m \<and> ab_rel alpha beta v m"
  using assms
proof (induction ms arbitrary: M Mp)
  case Nil
  then show ?case by (auto simp: ab_rel_def)
next
  case (Cons mv ms)
  obtain fr fc tr tc where mv: "mv = (fr, fc, tr, tc)" by (cases mv)
  from Cons.prems(1) obtain nb where nb: "makeMove b (fr, fc) (tr, tc) = Inr nb"
     "good_child ev pl nb" and rest: "good_moves ev pl b ms"
    unfolding mv good_moves_Cons by auto
  let ?bt = "min beta M"
  from nb(2) Cons.prems(2) obtain e mc where e: "ev nb alpha ?bt = Inr e" "pl nb = Inr mc"
     "ab_rel alpha ?bt e mc"
    unfolding good_child_def by blast
  have step: "minLoop ev b (mv # ms) M alpha ?bt =
       (if min ?bt e \<le> alpha then Inr (min M e) else minLoop ev b ms (min M e) alpha (min ?bt e))"
    by (simp add: mv nb(1) e(1) Let_def)
  have pstep: "plainMinLoop pl b (mv # ms) Mp = plainMinLoop pl b ms (min Mp mc)"
    by (simp add: mv nb(1) e(2))
  have b': "min ?bt e = min beta (min M e)" by (simp add: min.assoc)
  show ?case
  proof (cases "min ?bt e \<le> alpha")
    case True
    with Cons.prems(2) have ea: "e \<le> alpha" by (auto simp: min_def split: if_splits)
    with e(3) have mce: "mc \<le> e" unfolding ab_rel_def by blast
    from ea Cons.prems(2) have "e < M" by (auto simp: min_def split: if_splits)
    then have v: "min M e = e" by simp
    obtain m where m: "plainMinLoop pl b ms (min Mp mc) = Inr m" "m \<le> min Mp mc"
      using plainMinLoop_le[OF rest] by blast
    from m(2) mce have "m \<le> e" by (auto simp: min_def split: if_splits)
    moreover from ea Cons.prems(2) have "e < beta" by (auto simp: min_def split: if_splits)
    ultimately have "ab_rel alpha beta e m"
      using ea by (auto simp: ab_rel_def)
    then show ?thesis
      using True step pstep m(1) v by simp
  next
    case False
    then have lt: "alpha < min beta (min M e)" unfolding b' by (simp only: not_le)
    then have ae: "alpha < e" by (auto simp: min_def split: if_splits)
    have emc: "e \<le> mc"
    proof (cases "?bt \<le> e")
      case True
      with e(3) show ?thesis unfolding ab_rel_def by blast
    next
      case False
      then have "e < ?bt" by (simp only: not_le)
      with e(3) ae have "e = mc" unfolding ab_rel_def by blast
      then show ?thesis by simp
    qed
    have i1: "min M e \<le> min Mp mc"
      using Cons.prems(3) emc by (auto simp: min_def)
    have i2: "min M e < beta \<longrightarrow> min M e = min Mp mc"
    proof
      assume mb: "min M e < beta"
      show "min M e = min Mp mc"
      proof (cases "M \<le> e")
        case True
        then have "min M e = M" by simp
        with mb Cons.prems(4) have "M = Mp" by simp
        with True emc show ?thesis by (auto simp: min_def)
      next
        case False
        then have eM: "e < M" by simp
        with mb have "e < beta" by (simp add: min_def split: if_splits)
        with eM have "e < ?bt" by simp
        with e(3) ae have "e = mc" unfolding ab_rel_def by blast
        with eM Cons.prems(3) show ?thesis by (auto simp: min_def)
      qed
    qed
    from Cons.IH[OF rest lt i1 i2]
    show ?thesis
      using False step pstep b' by simp
  qed
qed

lemma ab_rel_refl: "ab_rel alpha beta v v"
  by (simp add: ab_rel_def)

lemma ab_rel_full: "ab_rel NegInfinity Infinity v m \<Longrightarrow> v = m"
proof -
  assume r: "ab_rel NegInfinity Infinity v m"
  show "v = m"
  proof (cases v)
    case NegInfinity
    with r have "m \<le> NegInfinity" by (simp add: ab_rel_def)
    then show ?thesis using NegInfinity by (cases m) (simp_all add: less_eq_number_def)
  next
    case (Num x)
    then have "NegInfinity < v \<and> v < Infinity"
      by (simp add: less_number_def less_eq_number_def)
    with r show ?thesis unfolding ab_rel_def by blast
  next
    case Infinity
    with r have "Infinity \<le> m" by (simp add: ab_rel_def)
    then show ?thesis using Infinity by (cases m) (simp_all add: less_eq_number_def)
  qed
qed

lemma makeMove_scanMoves:
  assumes "wf_board b" "(fr, fc, tr, tc) \<in> set (scanMoves b fb)"
  shows "\<exists>nb. makeMove b (fr, fc) (tr, tc) = Inr nb \<and> wf_board nb"
proof -
  have "move_on_board (fr, fc, tr, tc)" using scanMoves_on_board[OF assms] .
  then show ?thesis
    using makeMove_wf_board[OF assms(1), of "(fr, fc)" "(tr, tc)"] by (simp add: move_on_board_def)
qed

lemma minimax_rel:
  assumes "wf_board b" "alpha < beta"
  shows "\<exists>v m. minimax b d alpha beta mx = Inr v \<and> plainMinimax b d mx = Inr m
            \<and> ab_rel alpha beta v m"
  using assms
proof (induction d arbitrary: b alpha beta mx)
  case 0
  then show ?case by (simp add: evaluateBoard_wf ab_rel_refl)
next
  case (Suc d)
  let ?ms = "scanMoves b mx"
  note gm = getAllMoves_wf[OF Suc.prems(1), of mx]
  show ?case
  proof (cases "?ms = []")
    case True
    then show ?thesis by (simp add: gm ab_rel_refl)
  next
    case False
    have good: "good_moves (\<lambda>nb a bt. minimax nb d a bt mx') (\<lambda>nb. plainMinimax nb d mx') b ?ms" for mx'
      unfolding good_moves_def good_child_def
    proof (intro ballI, clarify)
      fix fr fc tr tc assume "(fr, fc, tr, tc) \<in> set ?ms"
      from makeMove_scanMoves[OF Suc.prems(1) this]
      obtain nb where nb: "makeMove b (fr, fc) (tr, tc) = Inr nb" "wf_board nb" by auto
      have "\<forall>alpha beta. alpha < beta \<longrightarrow>
              (\<exists>v m. minimax nb d alpha beta mx' = Inr v \<and> plainMinimax nb d mx' = Inr m
                 \<and> ab_rel alpha beta v m)"
        using Suc.IH[OF nb(2)] by blast
      with nb(1) show "\<exists>nb. makeMove b (fr, fc) (tr, tc) = Inr nb \<and>
              (\<forall>alpha beta. alpha < beta \<longrightarrow>
              (\<exists>v m. minimax nb d alpha beta mx' = Inr v \<and> plainMinimax nb d mx' = Inr m
                 \<and> ab_rel alpha beta v m))"
        by blast
    qed
    show ?thesis
    proof (cases mx)
      case True
      have "\<exists>v m. maxLoop (\<lambda>nb a bt. minimax nb d a bt False) b ?ms NegInfinity
                      (max alpha NegInfinity) beta = Inr v
                \<and> plainMaxLoop (\<lambda>nb. plainMinimax nb d False) b ?ms NegInfinity = Inr m
                \<and> ab_rel alpha beta v m"
        by (rule maxLoop_rel[OF good]) (simp_all add: Suc.prems(2) max_absorb1)
      then show ?thesis
        using False True gm by (simp add: max_absorb1)
    next
      case mn: False
      have "\<exists>v m. minLoop (\<lambda>nb a bt. minimax nb d a bt True) b ?ms Infinity
                      alpha (min beta Infinity) = Inr v
                \<and> plainMinLoop (\<lambda>nb. plainMinimax nb d True) b ?ms Infinity = Inr m
                \<and> ab_rel alpha beta v m"
        by (rule minLoop_rel[OF good]) (simp_all add: Suc.prems(2) min_absorb1)
      then show ?thesis
        using False mn gm by (simp add: min_absorb1)
    qed
  qed
qed

lemma first_best_here:
  "\<forall>x \<in> set ss. x \<le> s \<Longrightarrow> first_best (m # ms) (s # ss) m s"
  unfolding first_best_def
  by (rule exI[of _ "[]"], rule exI[of _ ms], rule exI[of _ "[]"], rule exI[of _ ss]) simp

lemma first_best_later:
  assumes "first_best ms ss m s" "s0 < s"
  shows "first_best (m0 # ms) (s0 # ss) m s"
proof -
  from assms(1) obtain pre post spre spost where
    p: "ms = pre @ m # post" "ss = spre @ s # spost" "length pre = length spre"
       "\<forall>x \<in> set spre. x < s" "\<forall>x \<in> set spost. x \<le> s"
    unfolding first_best_def by blast
  show ?thesis
    unfolding first_best_def
    by (rule exI[of _ "m0 # pre"], rule exI[of _ post], rule exI[of _ "s0 # spre"],
        rule exI[of _ spost]) (use p assms(2) in simp)
qed

lemma bestLoop_step:
  assumes "moveScore b m = Inr s"
  shows "bestLoop b (m # ms) bm bs =
           (if bs < s then bestLoop b ms m s else bestLoop b ms bm bs)"
proof -
  obtain fr fc tr tc where m: "m = (fr, fc, tr, tc)" by (cases m)
  from assms obtain nb where nb: "makeMove b (fr, fc) (tr, tc) = Inr nb"
      "minimax nb 2 NegInfinity Infinity False = Inr s"
    unfolding moveScore_def m by (cases "makeMove b (fr, fc) (tr, tc)") auto
  show ?thesis by (simp add: m nb)
qed

lemma bestLoop_spec:
  assumes "map (moveScore b) ms = map Inr ss"
  shows "\<exists>r. bestLoop b ms bm bs = Inr r
     \<and> (((\<forall>x \<in> set ss. x \<le> bs) \<and> r = bm) \<or> (\<exists>s. bs < s \<and> first_best ms ss r s))"
  using assms
proof (induction ms arbitrary: ss bm bs)
  case Nil
  then show ?case by simp
next
  case (Cons m ms)
  from Cons.prems obtain s ss' where ss: "ss = s # ss'" "moveScore b m = Inr s"
     "map (moveScore b) ms = map Inr ss'"
    by (cases ss) auto
  note st = bestLoop_step[OF ss(2), of ms bm bs]
  show ?case
  proof (cases "bs < s")
    case True
    from Cons.IH[OF ss(3), of m s] obtain r where r: "bestLoop b ms m s = Inr r"
      "((\<forall>x \<in> set ss'. x \<le> s) \<and> r = m) \<or> (\<exists>s'. s < s' \<and> first_best ms ss' r s')"
      by blast
    from r(2) have "\<exists>s'. bs < s' \<and> first_best (m # ms) (s # ss') r s'"
    proof
      assume "(\<forall>x \<in> set ss'. x \<le> s) \<and> r = m"
      then show ?thesis using first_best_here[of ss' s m ms] True by blast
    next
      assume "\<exists>s'. s < s' \<and> first_best ms ss' r s'"
      then obtain s' where s': "s < s'" "first_best ms ss' r s'" by blast
      from True s'(1) have "bs < s'" by simp
      with first_best_later[OF s'(2) s'(1)] show ?thesis by blast
    qed
    then show ?thesis using st True r(1) ss(1) by simp
  next
    case False
    from Cons.IH[OF ss(3), of bm bs] obtain r where r: "bestLoop b ms bm bs = Inr r"
      "((\<forall>x \<in> set ss'. x \<le> bs) \<and> r = bm) \<or> (\<exists>s'. bs < s' \<and> first_best ms ss' r s')"
      by blast
    from r(2) have "((\<forall>x \<in> set (s # ss'). x \<le> bs) \<and> r = bm)
                     \<or> (\<exists>s'. bs < s' \<and> first_best (m # ms) (s # ss') r s')"
    proof
      assume "(\<forall>x \<in> set ss'. x \<le> bs) \<and> r = bm"
      then show ?thesis using False by auto
    next
      assume "\<exists>s'. bs < s' \<and> first_best ms ss' r s'"
      then obtain s' where s': "bs < s'" "first_best ms ss' r s'" by blast
      from False s'(1) have "s < s'" by simp
      with first_best_later[OF s'(2)] s'(1) show ?thesis by blast
    qed
    then show ?thesis using st False r(1) ss(1) by simp
  qed
qed

lemma moveScore_total:
  assumes "wf_board b" "m \<in> set (scanMoves b fb)"
  shows "\<exists>s. moveScore b m = Inr s"
proof -
  obtain fr fc tr tc where m: "m = (fr, fc, tr, tc)" by (cases m)
  from makeMove_scanMoves[OF assms(1) assms(2)[unfolded m]]
  obtain nb where nb: "makeMove b (fr, fc) (tr, tc) = Inr nb" "wf_board nb" by auto
  from minimax_rel[OF nb(2), of NegInfinity Infinity 2 False]
  obtain v where "minimax nb 2 NegInfinity Infinity False = Inr v" by auto
  then show ?thesis by (simp add: moveScore_def m nb(1))
qed

lemma scores_exist:
  assumes "\<forall>m \<in> set ms. \<exists>s. moveScore b m = Inr s"
  shows "\<exists>ss. map (moveScore b) ms = map Inr ss"
  using assms
proof (induction ms)
  case Nil
  then show ?case by simp
next
  case (Cons m ms)
  then obtain s ss where "moveScore b m = Inr s" "map (moveScore b) ms = map Inr ss" by auto
  then have "map (moveScore b) (m # ms) = map Inr (s # ss)" by simp
  then show ?case by blast
qed

text \<open>
  Claim C7. On a board of eight rows of eight cells on which black, the automated
  side, has a move: \<open>getAllMoves\<close> returns the moves of black in scan order; each of them
  has a score, the value of \<open>minimax\<close> at depth 2 with the full window and
  \<open>maximizing = false\<close> on the board after the move; and \<open>aiMove\<close> plays the first move of
  greatest score. When there is exactly one move, that move is played.
\<close>

theorem aiMove_first_best:
  assumes "wf_board board" "scanMoves board True \<noteq> []"
  shows "\<exists>scores best s newBoard over.
           getAllMoves board True = Inr (scanMoves board True)
         \<and> map (moveScore board) (scanMoves board True) = map Inr scores
         \<and> first_best (scanMoves board True) scores best s
         \<and> aiMove board = Inr (Played best newBoard over)
         \<and> (\<forall>m. scanMoves board True = [m] \<longrightarrow> best = m)"
proof -
  let ?ms = "scanMoves board True"
  note gm = getAllMoves_wf[OF assms(1), of True]
  obtain ss where ss: "map (moveScore board) ?ms = map Inr ss"
    using scores_exist[of ?ms board] moveScore_total[OF assms(1)] by blast
  then have len: "length ss = length ?ms" by (metis length_map)
  from assms(2) obtain m0 ms' where ms: "?ms = m0 # ms'" by (cases ?ms) auto
  with len obtain s0 ss' where ss': "ss = s0 # ss'" by (cases ss) auto
  from bestLoop_spec[OF ss, of "hd ?ms" NegInfinity]
  obtain r where r: "bestLoop board ?ms (hd ?ms) NegInfinity = Inr r"
    "((\<forall>x \<in> set ss. x \<le> NegInfinity) \<and> r = hd ?ms) \<or> (\<exists>s. NegInfinity < s \<and> first_best ?ms ss r s)"
    by blast
  from r(2) obtain s where fb: "first_best ?ms ss r s"
  proof
    assume a: "(\<forall>x \<in> set ss. x \<le> NegInfinity) \<and> r = hd ?ms"
    then have "\<forall>x \<in> set ss. x = NegInfinity"
      by (auto intro!: antisym)
    then have "s0 = NegInfinity" "\<forall>x \<in> set ss'. x \<le> s0" by (auto simp: ss')
    then have "first_best (m0 # ms') (s0 # ss') m0 s0"
      using first_best_here by blast
    with a ms ss' that show ?thesis by simp
  next
    assume "\<exists>s. NegInfinity < s \<and> first_best ?ms ss r s"
    with that show ?thesis by blast
  qed
  then have rin: "r \<in> set ?ms" unfolding first_best_def by auto
  obtain fr fc tr tc where rt: "r = (fr, fc, tr, tc)" by (cases r)
  from makeMove_scanMoves[OF assms(1) rin[unfolded rt]]
  obtain nb where nb: "makeMove board (fr, fc) (tr, tc) = Inr nb" "wf_board nb" by auto
  have "aiMove board = Inr (Played r nb
          (if scanMoves nb False = [] then Some ''Checkmate! AI wins!'' else None))"
    using assms(2)
    by (simp add: aiMove_def gm r(1) rt nb(1) getAllMoves_wf[OF nb(2)])
  moreover have "\<forall>m. ?ms = [m] \<longrightarrow> r = m"
    using rin by auto
  ultimately show ?thesis using gm ss fb by blast
qed

theorem aiMove_first_best_witness:
  "wf_board sampleBoard \<and> scanMoves sampleBoard True \<noteq> []
   \<and> (\<exists>scores best s newBoard over.
           getAllMoves sampleBoard True = Inr (scanMoves sampleBoard True)
         \<and> map (moveScore sampleBoard) (scanMoves sampleBoard True) = map Inr scores
         \<and> first_best (scanMoves sampleBoard True) scores best s
         \<and> aiMove sampleBoard = Inr (Played best newBoard over))"
proof -
  have wf: "wf_board sampleBoard"
    by (simp add: wf_board_def sampleBoard_def)
  have ne: "scanMoves sampleBoard True \<noteq> []"
    by code_simp
  from aiMove_first_best[OF wf ne] wf ne show ?thesis by blast
qed

text \<open>
  Claim C8. When \<open>getAllMoves\<close> finds no move for black, \<open>aiMove\<close> plays nothing and
  sets the game over with the message that the human side wins. At a depth of at least
  one, \<open>minimax\<close> returns minus infinity when the maximizing side has no move and plus
  infinity when the minimizing side has no move.
\<close>

theorem no_moves_is_terminal:
  "(getAllMoves board True = Inr [] \<longrightarrow> aiMove board = Inr (NoMove ''Checkmate! You win!''))
   \<and> (0 < depth \<and> getAllMoves board True = Inr []
         \<longrightarrow> minimax board depth alpha beta True = Inr NegInfinity)
   \<and> (0 < depth \<and> getAllMoves board False = Inr []
         \<longrightarrow> minimax board depth alpha beta False = Inr Infinity)"
  by (cases depth) (simp_all add: aiMove_def)

theorem no_moves_is_terminal_witness:
  "getAllMoves blockedBoard True = Inr [] \<and> getAllMoves blockedBoard False = Inr []
   \<and> aiMove blockedBoard = Inr (NoMove ''Checkmate! You win!'')
   \<and> minimax blockedBoard 2 (Num 0) (Num 1) True = Inr NegInfinity
   \<and> minimax blockedBoard 2 (Num 0) (Num 1) False = Inr Infinity"
proof -
  have b: "getAllMoves blockedBoard True = Inr []" by code_simp
  have w: "getAllMoves blockedBoard False = Inr []" by code_simp
  from no_moves_is_terminal[of blockedBoard 2 "Num 0" "Num 1"] b w show ?thesis by simp
qed

text \<open>
  Claim C10. On a board of eight rows of eight cells, for every depth and either side
  to move, \<open>minimax\<close> started with the window from minus infinity to plus infinity
  returns, and its value is the value of \<open>plainMinimax\<close>, the same search without the
  pruning breaks.
\<close>

theorem alpha_beta_equals_plain:
  assumes "wf_board board"
  shows "\<exists>v. minimax board depth NegInfinity Infinity maximizing = Inr v
            \<and> plainMinimax board depth maximizing = Inr v"
proof -
  from minimax_rel[OF assms, of NegInfinity Infinity depth maximizing]
  obtain v m where vm: "minimax board depth NegInfinity Infinity maximizing = Inr v"
     "plainMinimax board depth maximizing = Inr m" "ab_rel NegInfinity Infinity v m"
    by auto
  from ab_rel_full[OF vm(3)] vm(1,2) show ?thesis by simp
qed

theorem alpha_beta_equals_plain_witness:
  "wf_board initialBoard
   \<and> (\<exists>v. minimax initialBoard 3 NegInfinity Infinity True = Inr v
            \<and> plainMinimax initialBoard 3 True = Inr v)"
  using alpha_beta_equals_plain[OF wf_initialBoard, of 3 True] wf_initialBoard by simp

end
